theory Spec2Isabelle
  imports Main "HOL-Library.Word" "HOL-Library.Char_ord"
begin

section \<open>Boost.Algorithm: the three searchers of search.hpp and the codec of hex.hpp\<close>

text \<open>
  The C++ classes \<^verbatim>\<open>boyer_moore\<close>, \<^verbatim>\<open>boyer_moore_horspool\<close> and
  \<^verbatim>\<open>knuth_morris_pratt\<close> are embedded function by function.

  \<^item> A pattern is a list. \<^verbatim>\<open>pat_first [j]\<close> is the checked read \<open>at pat j\<close>.
  \<^item> A corpus is what the random access iterator \<^verbatim>\<open>corpus_first\<close> gives: a function
    from an offset to the symbol there, \<open>None\<close> outside the range, together with its
    length \<^verbatim>\<open>k_corpus_length\<close>. For a list \<open>c\<close> the iterator is \<open>at c\<close>.
  \<^item> \<^verbatim>\<open>std::size_t\<close> is \<open>nat\<close>: its values here are lengths of ranges and offsets
    into them, which the type holds. A \<^verbatim>\<open>size_t\<close> result that would fall below zero,
    and so wrap around, is the fault \<open>Wrapped\<close>.
  \<^item> \<^verbatim>\<open>int\<close> has 32 bits. A value of a wider type that is stored in an \<^verbatim>\<open>int\<close>, passed
    for an \<^verbatim>\<open>int\<close> parameter or cast with \<^verbatim>\<open>(int)\<close> keeps its low 32 bits, read in
    two's complement: \<open>to_int\<close>. An \<^verbatim>\<open>int\<close> sum that leaves the range of the type is
    the fault \<open>Overflow\<close> (undefined behaviour in C++): \<open>sadd\<close>.
  \<^item> A read or write outside a vector, a pattern or a corpus, and an iterator
    moved in front of its range, is the fault \<open>OutOfRange\<close> (undefined behaviour in
    C++), so that every such event is a branch of the model.
  \<^item> A loop whose exit depends on the contents of a table is a
    \<^theory_text>\<open>partial_function\<close> in the option monad: \<open>None\<close> is a loop that never
    exits. The loops counted by an index are total functions.
  \<^item> \<^verbatim>\<open>BOOST_ASSERT\<close> and the \<^verbatim>\<open>BOOST_ALGO_DEBUG\<close> printing compile to nothing in a
    release build and are left out.
\<close>

subsection \<open>Faults, checked reads and writes\<close>

datatype fault = OutOfRange | Wrapped | Overflow

definition at :: "'a list \<Rightarrow> nat \<Rightarrow> 'a option" where
  "at xs i = (if i < length xs then Some (xs ! i) else None)"

definition at_int :: "'a list \<Rightarrow> int \<Rightarrow> 'a option" where
  "at_int xs i = (if 0 \<le> i then at xs (nat i) else None)"

definition put :: "'a list \<Rightarrow> nat \<Rightarrow> 'a \<Rightarrow> 'a list option" where
  "put xs i v = (if i < length xs then Some (xs[i := v]) else None)"

definition put_int :: "'a list \<Rightarrow> int \<Rightarrow> 'a \<Rightarrow> 'a list option" where
  "put_int xs i v = (if 0 \<le> i then put xs (nat i) v else None)"

definition usub :: "nat \<Rightarrow> nat \<Rightarrow> nat option" where
  "usub a b = (if b \<le> a then Some (a - b) else None)"

definition to_int :: "int \<Rightarrow> int" where
  "to_int x = signed_take_bit 31 x"

definition sadd :: "int \<Rightarrow> int \<Rightarrow> int option" where
  "sadd a b =
     (if - 2147483648 \<le> a + b \<and> a + b \<le> 2147483647 then Some (a + b) else None)"

text \<open>How the inner comparison loop of a searcher ends: the whole pattern matched
  (the \<^verbatim>\<open>return\<close> inside the loop), or the comparison failed with the loop
  variable at the given value.\<close>

datatype scan = Matched | Mismatch nat

text \<open>How one round of the outer loop of a searcher ends: with the \<^verbatim>\<open>return\<close> of a
  position, or with the loop variables for the next round.\<close>

datatype 'a iter = Return nat | Continue 'a

subsection \<open>detail::skip_table, both specialisations\<close>

text \<open>\<^verbatim>\<open>skip_table<value_type, false>\<close>: an unordered map and a default.\<close>

record 'a skip_table =
  k_default_value :: int
  skip_map :: "'a \<rightharpoonup> int"

definition skip_table :: "nat \<Rightarrow> int \<Rightarrow> 'a skip_table" where
  "skip_table patSize default_value =
     \<lparr>k_default_value = default_value, skip_map = Map.empty\<rparr>"

definition skip_insert :: "'a \<Rightarrow> int \<Rightarrow> 'a skip_table \<Rightarrow> 'a skip_table" where
  "skip_insert key val t = t\<lparr>skip_map := (skip_map t)(key \<mapsto> val)\<rparr>"

definition skip_lookup :: "'a skip_table \<Rightarrow> 'a \<Rightarrow> int" where
  "skip_lookup t val =
     (case skip_map t val of None \<Rightarrow> k_default_value t | Some v \<Rightarrow> v)"

text \<open>\<^verbatim>\<open>skip_table<value_type, true>\<close>, chosen by \<^verbatim>\<open>BM_traits\<close> for an integral
  \<^verbatim>\<open>value_type\<close> of one byte: a \<^verbatim>\<open>boost::array\<close> of \<^verbatim>\<open>1U << CHAR_BIT\<close> ints, indexed
  by the key cast to its unsigned type. The symbol is an \<open>8 word\<close> and the cast is
  \<open>unat\<close>.\<close>

record skip_array =
  a_default_value :: int
  skip_arr :: "int list"

definition skip_array :: "nat \<Rightarrow> int \<Rightarrow> skip_array" where
  "skip_array patSize default_value =
     \<lparr>a_default_value = default_value, skip_arr = replicate 256 default_value\<rparr>"

definition array_insert :: "8 word \<Rightarrow> int \<Rightarrow> skip_array \<Rightarrow> skip_array" where
  "array_insert key val t = t\<lparr>skip_arr := (skip_arr t)[unat key := val]\<rparr>"

definition array_lookup :: "skip_array \<Rightarrow> 8 word \<Rightarrow> int" where
  "array_lookup t val = skip_arr t ! unat val"

subsection \<open>knuth_morris_pratt\<close>

text \<open>The \<^verbatim>\<open>while (j >= 0)\<close> loop of \<^verbatim>\<open>init_skip_table\<close>, left by \<^verbatim>\<open>break\<close> or by
  \<open>j < 0\<close>; its value is the final \<open>j\<close>. \<open>i\<close> and \<open>j\<close> are \<^verbatim>\<open>int\<close>s, and so are the
  entries of \<^verbatim>\<open>skip_\<close>.\<close>

partial_function (option) kmp_skip_while ::
  "'a list \<Rightarrow> int list \<Rightarrow> int \<Rightarrow> int \<Rightarrow> (fault + int) option" where
  "kmp_skip_while first skip i j =
     (if 0 \<le> j then
        (case at_int first j of
           None \<Rightarrow> Some (Inl OutOfRange)
         | Some a \<Rightarrow>
            (case at_int first (i - 1) of
               None \<Rightarrow> Some (Inl OutOfRange)
             | Some b \<Rightarrow>
                if a = b then Some (Inr j)
                else (case at_int skip j of
                        None \<Rightarrow> Some (Inl OutOfRange)
                      | Some j' \<Rightarrow> kmp_skip_while first skip i j')))
      else Some (Inr j))"

declare kmp_skip_while.simps [code]

text \<open>The \<^verbatim>\<open>for\<close> loop of \<^verbatim>\<open>init_skip_table\<close>: its \<^verbatim>\<open>++i\<close> and the \<^verbatim>\<open>j + 1\<close> it stores
  are \<^verbatim>\<open>int\<close> sums, and \<^verbatim>\<open>i - 1\<close> is at least \<open>0\<close> since \<open>i\<close> starts at \<open>1\<close>.
  \<^verbatim>\<open>const int count = std::distance (first, last)\<close> narrows the length of the
  pattern.\<close>

function kmp_skip_for ::
  "'a list \<Rightarrow> int \<Rightarrow> int \<Rightarrow> int list \<Rightarrow> (fault + int list) option" where
  "kmp_skip_for first count i skip =
     (if i \<le> count then
        (case at_int skip (i - 1) of
           None \<Rightarrow> Some (Inl OutOfRange)
         | Some j0 \<Rightarrow>
            (case kmp_skip_while first skip i j0 of
               None \<Rightarrow> None
             | Some (Inl e) \<Rightarrow> Some (Inl e)
             | Some (Inr j) \<Rightarrow>
                (case sadd j 1 of
                   None \<Rightarrow> Some (Inl Overflow)
                 | Some j1 \<Rightarrow>
                    (case put_int skip i j1 of
                       None \<Rightarrow> Some (Inl OutOfRange)
                     | Some skip' \<Rightarrow>
                        (case sadd i 1 of
                           None \<Rightarrow> Some (Inl Overflow)
                         | Some i' \<Rightarrow> kmp_skip_for first count i' skip')))))
      else Some (Inr skip))"
  by pat_completeness auto
termination
  by (relation "measure (\<lambda>(first, count, i, skip). nat (count + 1 - i))")
     (auto simp: sadd_def split: if_splits)

declare kmp_skip_for.simps [simp del]

definition init_skip_table :: "'a list \<Rightarrow> int list \<Rightarrow> (fault + int list) option" where
  "init_skip_table first skip =
     (case put skip 0 (- 1) of
        None \<Rightarrow> Some (Inl OutOfRange)
      | Some skip' \<Rightarrow> kmp_skip_for first (to_int (int (length first))) 1 skip')"

text \<open>The object: the pattern (\<^verbatim>\<open>pat_first\<close>, \<^verbatim>\<open>pat_last\<close>; \<^verbatim>\<open>k_pattern_length\<close> is
  its length) and \<^verbatim>\<open>skip_\<close>, a vector of \<^verbatim>\<open>k_pattern_length + 1\<close> ints that the
  constructor hands to \<^verbatim>\<open>init_skip_table\<close>.\<close>

record 'a kmp =
  kmp_pat :: "'a list"
  kmp_skip :: "int list"

definition knuth_morris_pratt :: "'a list \<Rightarrow> (fault + 'a kmp) option" where
  "knuth_morris_pratt pat =
     (case init_skip_table pat (replicate (length pat + 1) 0) of
        None \<Rightarrow> None
      | Some (Inl e) \<Rightarrow> Some (Inl e)
      | Some (Inr skip) \<Rightarrow> Some (Inr \<lparr>kmp_pat = pat, kmp_skip = skip\<rparr>))"

text \<open>The inner \<^verbatim>\<open>while\<close> of \<^verbatim>\<open>do_search\<close>. It cannot run past the pattern: the read
  of \<^verbatim>\<open>pat_first [idx]\<close> is checked.\<close>

function kmp_while ::
  "'a list \<Rightarrow> (nat \<Rightarrow> 'a option) \<Rightarrow> nat \<Rightarrow> nat \<Rightarrow> fault + scan" where
  "kmp_while pat corpus match_start idx =
     (case at pat idx of
        None \<Rightarrow> Inl OutOfRange
      | Some a \<Rightarrow>
         (case corpus (match_start + idx) of
            None \<Rightarrow> Inl OutOfRange
          | Some b \<Rightarrow>
             if a = b then
               (if idx + 1 = length pat then Inr Matched
                else kmp_while pat corpus match_start (idx + 1))
             else Inr (Mismatch idx)))"
  by pat_completeness auto
termination
  by (relation "measure (\<lambda>(pat, corpus, match_start, idx). length pat - idx)")
     (auto simp: at_def split: if_splits)

declare kmp_while.simps [simp del]

text \<open>One round of the outer \<^verbatim>\<open>while\<close> of \<^verbatim>\<open>do_search\<close>. \<^verbatim>\<open>match_start += idx - skip_ [idx]\<close>
  is \<^verbatim>\<open>size_t\<close> arithmetic: the new \<^verbatim>\<open>match_start\<close> wraps when it would be negative.\<close>

definition kmp_body ::
  "'a list \<Rightarrow> int list \<Rightarrow> (nat \<Rightarrow> 'a option) \<Rightarrow> nat \<Rightarrow> nat \<Rightarrow> fault + (nat \<times> nat) iter" where
  "kmp_body pat skip corpus match_start idx =
     (case kmp_while pat corpus match_start idx of
        Inl e \<Rightarrow> Inl e
      | Inr Matched \<Rightarrow> Inr (Return match_start)
      | Inr (Mismatch idx') \<Rightarrow>
         (case at skip idx' of
            None \<Rightarrow> Inl OutOfRange
          | Some s \<Rightarrow>
             if int match_start + (int idx' - s) < 0 then Inl Wrapped
             else Inr (Continue (nat (int match_start + (int idx' - s)),
                                 if 0 \<le> s then nat s else 0))))"

partial_function (option) kmp_loop ::
  "'a list \<Rightarrow> int list \<Rightarrow> (nat \<Rightarrow> 'a option) \<Rightarrow> nat \<Rightarrow> nat \<Rightarrow> nat \<Rightarrow> nat
     \<Rightarrow> (fault + nat) option" where
  "kmp_loop pat skip corpus k_corpus_length last_match match_start idx =
     (if match_start \<le> last_match then
        (case kmp_body pat skip corpus match_start idx of
           Inl e \<Rightarrow> Some (Inl e)
         | Inr (Return r) \<Rightarrow> Some (Inr r)
         | Inr (Continue (match_start', idx')) \<Rightarrow>
            kmp_loop pat skip corpus k_corpus_length last_match match_start' idx')
      else Some (Inr k_corpus_length))"

declare kmp_loop.simps [code]

definition kmp_do_search ::
  "'a kmp \<Rightarrow> (nat \<Rightarrow> 'a option) \<Rightarrow> nat \<Rightarrow> (fault + nat) option" where
  "kmp_do_search m corpus k_corpus_length =
     (case usub k_corpus_length (length (kmp_pat m)) of
        None \<Rightarrow> Some (Inl Wrapped)
      | Some last_match \<Rightarrow>
          kmp_loop (kmp_pat m) (kmp_skip m) corpus k_corpus_length last_match 0 0)"

text \<open>\<^verbatim>\<open>operator ()\<close>. A position is an offset from \<^verbatim>\<open>corpus_first\<close>, so
  \<^verbatim>\<open>corpus_last\<close> is \<open>k_corpus_length\<close>.\<close>

definition kmp_call :: "'a kmp \<Rightarrow> (nat \<Rightarrow> 'a option) \<Rightarrow> nat \<Rightarrow> (fault + nat) option" where
  "kmp_call m corpus k_corpus_length =
     (if k_corpus_length = 0 then Some (Inr k_corpus_length)
      else if kmp_pat m = [] then Some (Inr 0)
      else if k_corpus_length < length (kmp_pat m) then Some (Inr k_corpus_length)
      else kmp_do_search m corpus k_corpus_length)"

definition knuth_morris_pratt_search :: "'a list \<Rightarrow> 'a list \<Rightarrow> (fault + nat) option" where
  "knuth_morris_pratt_search corpus pat =
     (case knuth_morris_pratt pat of
        None \<Rightarrow> None
      | Some (Inl e) \<Rightarrow> Some (Inl e)
      | Some (Inr m) \<Rightarrow> kmp_call m (at corpus) (length corpus))"

subsection \<open>boyer_moore\<close>

text \<open>The skip table loop of \<^verbatim>\<open>build_bm_tables\<close> walks the pattern with an iterator
  and a \<^verbatim>\<open>size_t\<close> counter \<open>i\<close>, which \<^verbatim>\<open>insert (value_type key, int val)\<close> takes as
  an \<^verbatim>\<open>int\<close>.\<close>

fun bm_skip_for :: "'a list \<Rightarrow> nat \<Rightarrow> 'a skip_table \<Rightarrow> 'a skip_table" where
  "bm_skip_for [] i t = t"
| "bm_skip_for (x # xs) i t = bm_skip_for xs (i + 1) (skip_insert x (to_int (int i)) t)"

text \<open>\<^verbatim>\<open>compute_bm_prefix\<close>: the \<^verbatim>\<open>while (k > 0 && pat_first[k] != pat_first[i])\<close>
  loop, then the \<^verbatim>\<open>for\<close> loop around it, which carries \<open>k\<close> from one round to the
  next.\<close>

partial_function (option) prefix_while ::
  "'a list \<Rightarrow> nat list \<Rightarrow> nat \<Rightarrow> nat \<Rightarrow> (fault + nat) option" where
  "prefix_while pat prefix i k =
     (if 0 < k then
        (case at pat k of
           None \<Rightarrow> Some (Inl OutOfRange)
         | Some a \<Rightarrow>
            (case at pat i of
               None \<Rightarrow> Some (Inl OutOfRange)
             | Some b \<Rightarrow>
                if a \<noteq> b then
                  (case at prefix (k - 1) of
                     None \<Rightarrow> Some (Inl OutOfRange)
                   | Some k' \<Rightarrow> prefix_while pat prefix i k')
                else Some (Inr k)))
      else Some (Inr k))"

declare prefix_while.simps [code]

function prefix_for ::
  "'a list \<Rightarrow> nat \<Rightarrow> nat \<Rightarrow> nat \<Rightarrow> nat list \<Rightarrow> (fault + nat list) option" where
  "prefix_for pat count i k prefix =
     (if i < count then
        (case prefix_while pat prefix i k of
           None \<Rightarrow> None
         | Some (Inl e) \<Rightarrow> Some (Inl e)
         | Some (Inr k1) \<Rightarrow>
            (case at pat k1 of
               None \<Rightarrow> Some (Inl OutOfRange)
             | Some a \<Rightarrow>
                (case at pat i of
                   None \<Rightarrow> Some (Inl OutOfRange)
                 | Some b \<Rightarrow>
                    (case put prefix i (if a = b then k1 + 1 else k1) of
                       None \<Rightarrow> Some (Inl OutOfRange)
                     | Some prefix' \<Rightarrow>
                        prefix_for pat count (i + 1) (if a = b then k1 + 1 else k1) prefix'))))
      else Some (Inr prefix))"
  by pat_completeness auto
termination
  by (relation "measure (\<lambda>(pat, count, i, k, prefix). count - i)") auto

declare prefix_for.simps [simp del]

definition compute_bm_prefix :: "'a list \<Rightarrow> nat list \<Rightarrow> (fault + nat list) option" where
  "compute_bm_prefix pat prefix =
     (case put prefix 0 0 of
        None \<Rightarrow> Some (Inl OutOfRange)
      | Some prefix' \<Rightarrow> prefix_for pat (length pat) 1 0 prefix')"

text \<open>\<^verbatim>\<open>create_suffix_table\<close>: the loop that fills \<^verbatim>\<open>suffix_\<close> with
  \<^verbatim>\<open>count - prefix [count-1]\<close>, and the loop that lowers the entry \<open>j\<close> to
  \<^verbatim>\<open>k = i - prefix_reversed [i] + 1\<close> where that is smaller.\<close>

function suffix_fill ::
  "nat \<Rightarrow> nat list \<Rightarrow> nat \<Rightarrow> nat list \<Rightarrow> fault + nat list" where
  "suffix_fill count prefix i suffix =
     (if i \<le> count then
        (case usub count 1 of
           None \<Rightarrow> Inl Wrapped
         | Some c1 \<Rightarrow>
            (case at prefix c1 of
               None \<Rightarrow> Inl OutOfRange
             | Some v \<Rightarrow>
                (case usub count v of
                   None \<Rightarrow> Inl Wrapped
                 | Some d \<Rightarrow>
                    (case put suffix i d of
                       None \<Rightarrow> Inl OutOfRange
                     | Some suffix' \<Rightarrow> suffix_fill count prefix (i + 1) suffix'))))
      else Inr suffix)"
  by pat_completeness auto
termination
  by (relation "measure (\<lambda>(count, prefix, i, suffix). Suc count - i)") auto

declare suffix_fill.simps [simp del]

function suffix_lower ::
  "nat \<Rightarrow> nat list \<Rightarrow> nat \<Rightarrow> nat list \<Rightarrow> fault + nat list" where
  "suffix_lower count prefix_reversed i suffix =
     (if i < count then
        (case at prefix_reversed i of
           None \<Rightarrow> Inl OutOfRange
         | Some v \<Rightarrow>
            (case usub count v of
               None \<Rightarrow> Inl Wrapped
             | Some j \<Rightarrow>
                (case usub (i + 1) v of
                   None \<Rightarrow> Inl Wrapped
                 | Some k \<Rightarrow>
                    (case at suffix j of
                       None \<Rightarrow> Inl OutOfRange
                     | Some sj \<Rightarrow>
                        if k < sj then
                          (case put suffix j k of
                             None \<Rightarrow> Inl OutOfRange
                           | Some suffix' \<Rightarrow>
                              suffix_lower count prefix_reversed (i + 1) suffix')
                        else suffix_lower count prefix_reversed (i + 1) suffix))))
      else Inr suffix)"
  by pat_completeness auto
termination
  by (relation "measure (\<lambda>(count, prefix_reversed, i, suffix). count - i)") auto

declare suffix_lower.simps [simp del]

definition create_suffix_table :: "'a list \<Rightarrow> nat list \<Rightarrow> (fault + nat list) option" where
  "create_suffix_table pat suffix =
     (if 0 < length pat then
        (case compute_bm_prefix pat (replicate (length pat) 0) of
           None \<Rightarrow> None
         | Some (Inl e) \<Rightarrow> Some (Inl e)
         | Some (Inr prefix) \<Rightarrow>
            (case compute_bm_prefix (rev pat) (replicate (length pat) 0) of
               None \<Rightarrow> None
             | Some (Inl e) \<Rightarrow> Some (Inl e)
             | Some (Inr prefix_reversed) \<Rightarrow>
                (case suffix_fill (length pat) prefix 0 suffix of
                   Inl e \<Rightarrow> Some (Inl e)
                 | Inr suffix' \<Rightarrow>
                    Some (suffix_lower (length pat) prefix_reversed 0 suffix'))))
      else Some (Inr suffix))"

text \<open>\<^verbatim>\<open>build_bm_tables\<close> fills the two tables the constructor has made.\<close>

definition build_bm_tables ::
  "'a list \<Rightarrow> 'a skip_table \<Rightarrow> nat list \<Rightarrow> (fault + 'a skip_table \<times> nat list) option" where
  "build_bm_tables pat skip suffix =
     (case create_suffix_table pat suffix of
        None \<Rightarrow> None
      | Some (Inl e) \<Rightarrow> Some (Inl e)
      | Some (Inr suffix') \<Rightarrow> Some (Inr (bm_skip_for pat 0 skip, suffix')))"

text \<open>The object: the pattern, \<^verbatim>\<open>skip_\<close> (made with the default \<open>-1\<close>) and \<^verbatim>\<open>suffix_\<close>
  (a vector of \<^verbatim>\<open>k_pattern_length + 1\<close> zeros before \<^verbatim>\<open>build_bm_tables\<close> runs).
  The matchers are written over the map; for one-byte symbols the traits pick the
  array, which answers every lookup alike (claim C8 below).\<close>

record 'a bm =
  bm_pat :: "'a list"
  bm_skip :: "'a skip_table"
  bm_suffix :: "nat list"

definition boyer_moore :: "'a list \<Rightarrow> (fault + 'a bm) option" where
  "boyer_moore pat =
     (case build_bm_tables pat (skip_table (length pat) (- 1))
             (replicate (length pat + 1) 0) of
        None \<Rightarrow> None
      | Some (Inl e) \<Rightarrow> Some (Inl e)
      | Some (Inr (skip, suffix)) \<Rightarrow>
          Some (Inr \<lparr>bm_pat = pat, bm_skip = skip, bm_suffix = suffix\<rparr>))"

text \<open>The inner \<^verbatim>\<open>while (pat_first [j-1] == curPos [j-1])\<close> of \<^verbatim>\<open>do_search\<close>. With
  \<open>j = 0\<close> the index \<^verbatim>\<open>j-1\<close> wraps.\<close>

fun bm_while :: "'a list \<Rightarrow> (nat \<Rightarrow> 'a option) \<Rightarrow> nat \<Rightarrow> nat \<Rightarrow> fault + scan" where
  "bm_while pat corpus curPos 0 = Inl Wrapped"
| "bm_while pat corpus curPos (Suc j) =
     (case at pat j of
        None \<Rightarrow> Inl OutOfRange
      | Some a \<Rightarrow>
         (case corpus (curPos + j) of
            None \<Rightarrow> Inl OutOfRange
          | Some b \<Rightarrow>
             if a = b then (if j = 0 then Inr Matched else bm_while pat corpus curPos j)
             else Inr (Mismatch (Suc j))))"

text \<open>One round of the outer \<^verbatim>\<open>while\<close> of \<^verbatim>\<open>do_search\<close>. \<open>k\<close> and \<open>m\<close> are \<^verbatim>\<open>int\<close>s:
  \<^verbatim>\<open>m = j - k - 1\<close> is computed in \<^verbatim>\<open>size_t\<close> and stored in the \<^verbatim>\<open>int\<close>, which keeps the
  low 32 bits of the difference, and the test casts \<open>j\<close> and \<^verbatim>\<open>suffix_ [j]\<close> to \<^verbatim>\<open>int\<close>.
  \<^verbatim>\<open>curPos += m\<close> with a negative \<open>m\<close> that leads in front of \<^verbatim>\<open>corpus_first\<close> is the
  fault.\<close>

definition bm_body ::
  "'a list \<Rightarrow> 'a skip_table \<Rightarrow> nat list \<Rightarrow> (nat \<Rightarrow> 'a option) \<Rightarrow> nat \<Rightarrow> fault + nat iter" where
  "bm_body pat skip suffix corpus curPos =
     (case bm_while pat corpus curPos (length pat) of
        Inl e \<Rightarrow> Inl e
      | Inr Matched \<Rightarrow> Inr (Return curPos)
      | Inr (Mismatch j) \<Rightarrow>
         (case usub j 1 of
            None \<Rightarrow> Inl Wrapped
          | Some j1 \<Rightarrow>
             (case corpus (curPos + j1) of
                None \<Rightarrow> Inl OutOfRange
              | Some c \<Rightarrow>
                 (case at suffix j of
                    None \<Rightarrow> Inl OutOfRange
                  | Some sj \<Rightarrow>
                     let k = skip_lookup skip c; m = to_int (int j - k - 1) in
                     if k < to_int (int j) \<and> to_int (int sj) < m then
                       (if int curPos + m < 0 then Inl OutOfRange
                        else Inr (Continue (nat (int curPos + m))))
                     else Inr (Continue (curPos + sj))))))"

partial_function (option) bm_loop ::
  "'a list \<Rightarrow> 'a skip_table \<Rightarrow> nat list \<Rightarrow> (nat \<Rightarrow> 'a option) \<Rightarrow> nat \<Rightarrow> nat \<Rightarrow> nat
     \<Rightarrow> (fault + nat) option" where
  "bm_loop pat skip suffix corpus k_corpus_length lastPos curPos =
     (if curPos \<le> lastPos then
        (case bm_body pat skip suffix corpus curPos of
           Inl e \<Rightarrow> Some (Inl e)
         | Inr (Return r) \<Rightarrow> Some (Inr r)
         | Inr (Continue curPos') \<Rightarrow>
            bm_loop pat skip suffix corpus k_corpus_length lastPos curPos')
      else Some (Inr k_corpus_length))"

declare bm_loop.simps [code]

definition bm_do_search ::
  "'a bm \<Rightarrow> (nat \<Rightarrow> 'a option) \<Rightarrow> nat \<Rightarrow> (fault + nat) option" where
  "bm_do_search m corpus k_corpus_length =
     (case usub k_corpus_length (length (bm_pat m)) of
        None \<Rightarrow> Some (Inl OutOfRange)
      | Some lastPos \<Rightarrow>
          bm_loop (bm_pat m) (bm_skip m) (bm_suffix m) corpus k_corpus_length lastPos 0)"

definition bm_call :: "'a bm \<Rightarrow> (nat \<Rightarrow> 'a option) \<Rightarrow> nat \<Rightarrow> (fault + nat) option" where
  "bm_call m corpus k_corpus_length =
     (if k_corpus_length = 0 then Some (Inr k_corpus_length)
      else if bm_pat m = [] then Some (Inr 0)
      else if k_corpus_length < length (bm_pat m) then Some (Inr k_corpus_length)
      else bm_do_search m corpus k_corpus_length)"

definition boyer_moore_search :: "'a list \<Rightarrow> 'a list \<Rightarrow> (fault + nat) option" where
  "boyer_moore_search corpus pat =
     (case boyer_moore pat of
        None \<Rightarrow> None
      | Some (Inl e) \<Rightarrow> Some (Inl e)
      | Some (Inr m) \<Rightarrow> bm_call m (at corpus) (length corpus))"

subsection \<open>boyer_moore_horspool\<close>

text \<open>The constructor's loop runs from \<^verbatim>\<open>first\<close> to \<^verbatim>\<open>last-1\<close>, that is over the
  pattern without its last symbol, and only for a pattern that is not empty.
  On that range \<open>i < k_pattern_length - 1\<close>, so the \<^verbatim>\<open>size_t\<close> difference
  \<^verbatim>\<open>k_pattern_length - 1 - i\<close> does not wrap; \<^verbatim>\<open>insert\<close> takes it as an \<^verbatim>\<open>int\<close>. So does
  \<^verbatim>\<open>skip_table (std::size_t patSize, int default_value)\<close> take the default, which
  the constructor gives as \<^verbatim>\<open>k_pattern_length\<close>.\<close>

fun bmh_skip_for :: "'a list \<Rightarrow> nat \<Rightarrow> nat \<Rightarrow> 'a skip_table \<Rightarrow> 'a skip_table" where
  "bmh_skip_for [] k_pattern_length i t = t"
| "bmh_skip_for (x # xs) k_pattern_length i t =
     bmh_skip_for xs k_pattern_length (i + 1)
       (skip_insert x (to_int (int (k_pattern_length - 1 - i))) t)"

record 'a bmh =
  bmh_pat :: "'a list"
  bmh_skip :: "'a skip_table"

definition boyer_moore_horspool :: "'a list \<Rightarrow> 'a bmh" where
  "boyer_moore_horspool pat =
     \<lparr>bmh_pat = pat,
      bmh_skip =
        (if pat \<noteq> [] then
           bmh_skip_for (butlast pat) (length pat) 0
             (skip_table (length pat) (to_int (int (length pat))))
         else skip_table (length pat) (to_int (int (length pat))))\<rparr>"

text \<open>The inner \<^verbatim>\<open>while (pat_first [j] == curPos [j])\<close>, from
  \<^verbatim>\<open>j = k_pattern_length - 1\<close> down.\<close>

fun bmh_while :: "'a list \<Rightarrow> (nat \<Rightarrow> 'a option) \<Rightarrow> nat \<Rightarrow> nat \<Rightarrow> fault + scan" where
  "bmh_while pat corpus curPos j =
     (case at pat j of
        None \<Rightarrow> Inl OutOfRange
      | Some a \<Rightarrow>
         (case corpus (curPos + j) of
            None \<Rightarrow> Inl OutOfRange
          | Some b \<Rightarrow>
             if a = b then
               (case j of 0 \<Rightarrow> Inr Matched | Suc j' \<Rightarrow> bmh_while pat corpus curPos j')
             else Inr (Mismatch j)))"

declare bmh_while.simps [simp del]

text \<open>One round of the outer \<^verbatim>\<open>while\<close> of \<^verbatim>\<open>do_search\<close>. \<^verbatim>\<open>curPos += skip_ [...]\<close>
  adds an \<^verbatim>\<open>int\<close>: a negative one that leads in front of \<^verbatim>\<open>corpus_first\<close> is the
  fault.\<close>

definition bmh_body ::
  "'a list \<Rightarrow> 'a skip_table \<Rightarrow> (nat \<Rightarrow> 'a option) \<Rightarrow> nat \<Rightarrow> fault + nat iter" where
  "bmh_body pat skip corpus curPos =
     (case usub (length pat) 1 of
        None \<Rightarrow> Inl Wrapped
      | Some j \<Rightarrow>
         (case bmh_while pat corpus curPos j of
            Inl e \<Rightarrow> Inl e
          | Inr Matched \<Rightarrow> Inr (Return curPos)
          | Inr (Mismatch j') \<Rightarrow>
             (case corpus (curPos + j) of
                None \<Rightarrow> Inl OutOfRange
              | Some c \<Rightarrow>
                 if int curPos + skip_lookup skip c < 0 then Inl OutOfRange
                 else Inr (Continue (nat (int curPos + skip_lookup skip c))))))"

partial_function (option) bmh_loop ::
  "'a list \<Rightarrow> 'a skip_table \<Rightarrow> (nat \<Rightarrow> 'a option) \<Rightarrow> nat \<Rightarrow> nat \<Rightarrow> nat
     \<Rightarrow> (fault + nat) option" where
  "bmh_loop pat skip corpus k_corpus_length lastPos curPos =
     (if curPos \<le> lastPos then
        (case bmh_body pat skip corpus curPos of
           Inl e \<Rightarrow> Some (Inl e)
         | Inr (Return r) \<Rightarrow> Some (Inr r)
         | Inr (Continue curPos') \<Rightarrow>
            bmh_loop pat skip corpus k_corpus_length lastPos curPos')
      else Some (Inr k_corpus_length))"

declare bmh_loop.simps [code]

definition bmh_do_search ::
  "'a bmh \<Rightarrow> (nat \<Rightarrow> 'a option) \<Rightarrow> nat \<Rightarrow> (fault + nat) option" where
  "bmh_do_search m corpus k_corpus_length =
     (case usub k_corpus_length (length (bmh_pat m)) of
        None \<Rightarrow> Some (Inl OutOfRange)
      | Some lastPos \<Rightarrow>
          bmh_loop (bmh_pat m) (bmh_skip m) corpus k_corpus_length lastPos 0)"

definition bmh_call :: "'a bmh \<Rightarrow> (nat \<Rightarrow> 'a option) \<Rightarrow> nat \<Rightarrow> (fault + nat) option" where
  "bmh_call m corpus k_corpus_length =
     (if k_corpus_length = 0 then Some (Inr k_corpus_length)
      else if bmh_pat m = [] then Some (Inr 0)
      else if k_corpus_length < length (bmh_pat m) then Some (Inr k_corpus_length)
      else bmh_do_search m corpus k_corpus_length)"

definition boyer_moore_horspool_search :: "'a list \<Rightarrow> 'a list \<Rightarrow> (fault + nat) option" where
  "boyer_moore_horspool_search corpus pat =
     bmh_call (boyer_moore_horspool pat) (at corpus) (length corpus)"

subsection \<open>hex.hpp: unhex\<close>

text \<open>The two exceptions the decoder throws (both derive from \<^verbatim>\<open>hex_decode_error\<close>).\<close>

datatype hex_decode_error = non_hex_input | not_enough_input

text \<open>\<^verbatim>\<open>hex_char_to_int\<close>. A \<^verbatim>\<open>char\<close> is compared by its code; one above 127, negative
  where \<^verbatim>\<open>char\<close> is signed, lies in none of the three ranges either way.\<close>

definition hex_char_to_int :: "char \<Rightarrow> hex_decode_error + nat" where
  "hex_char_to_int c =
     (if CHR ''0'' \<le> c \<and> c \<le> CHR ''9'' then Inr (of_char c - of_char CHR ''0'')
      else if CHR ''A'' \<le> c \<and> c \<le> CHR ''F'' then Inr (of_char c - of_char CHR ''A'' + 10)
      else if CHR ''a'' \<le> c \<and> c \<le> CHR ''f'' then Inr (of_char c - of_char CHR ''a'' + 10)
      else Inl non_hex_input)"

text \<open>\<^verbatim>\<open>decode_one\<close>. The input iterator may have any integral value type, \<^verbatim>\<open>wchar_t\<close>
  as well as \<^verbatim>\<open>char\<close>: an input symbol is the integer \<^verbatim>\<open>*first\<close>, and the call
  \<^verbatim>\<open>hex_char_to_int (*first)\<close> converts it to \<^verbatim>\<open>char\<close>, which keeps its low eight bits
  (\<open>char_of\<close>). The range from \<^verbatim>\<open>first\<close> to \<^verbatim>\<open>last\<close> is the list of the symbols in it, so
  \<^verbatim>\<open>first == last\<close> is the empty list; the result is the value written to \<^verbatim>\<open>out\<close> and
  the advanced \<^verbatim>\<open>first\<close>. The loop runs \<^verbatim>\<open>2 * sizeof (T)\<close> times; its first argument
  here counts the rounds still to go. \<^verbatim>\<open>res\<close> is read as an unsigned number: the
  digits shifted in never exceed the width of \<^verbatim>\<open>T\<close>.\<close>

fun decode_one_for ::
  "nat \<Rightarrow> int list \<Rightarrow> nat \<Rightarrow> hex_decode_error + nat \<times> int list" where
  "decode_one_for 0 first res = Inr (res, first)"
| "decode_one_for (Suc n) first res =
     (case first of
        [] \<Rightarrow> Inl not_enough_input
      | c # first' \<Rightarrow>
         (case hex_char_to_int (char_of c) of
            Inl e \<Rightarrow> Inl e
          | Inr d \<Rightarrow> decode_one_for n first' (res * 16 + d)))"

definition decode_one :: "nat \<Rightarrow> int list \<Rightarrow> hex_decode_error + nat \<times> int list" where
  "decode_one sizeof_T first = decode_one_for (2 * sizeof_T) first 0"

text \<open>\<^verbatim>\<open>unhex (first, last, out)\<close>, which the range and the string overloads call.
  The output iterator is the list of the values written so far. With
  \<^verbatim>\<open>sizeof (T)\<close> zero the loop would consume nothing and never end, hence the option.\<close>

partial_function (option) unhex ::
  "nat \<Rightarrow> int list \<Rightarrow> nat list \<Rightarrow> (hex_decode_error + nat list) option" where
  "unhex sizeof_T first out =
     (if first \<noteq> [] then
        (case decode_one sizeof_T first of
           Inl e \<Rightarrow> Some (Inl e)
         | Inr (v, first') \<Rightarrow> unhex sizeof_T first' (out @ [v]))
      else Some (Inr out))"

declare unhex.simps [code]

text \<open>\<^verbatim>\<open>unhex (const T *ptr, out)\<close>, for a null-terminated string. \<open>ptr\<close> is the list of
  the symbols in front of the terminator, so \<^verbatim>\<open>*ptr\<close> is the head of
  \<open>ptr @ [0]\<close>. The end handed to \<^verbatim>\<open>decode_one\<close> is the made-up
  \<^verbatim>\<open>ptr + 2 * sizeof (OutputType)\<close>: the range holds the next \<^verbatim>\<open>2 * sizeof (OutputType)\<close>
  characters, the terminator among them when the string is shorter. \<^verbatim>\<open>decode_one\<close>
  throws at the terminator, so nothing behind it is read; when it returns it has
  advanced \<open>ptr\<close> over the whole range.\<close>

partial_function (option) unhex_ptr ::
  "nat \<Rightarrow> int list \<Rightarrow> nat list \<Rightarrow> (hex_decode_error + nat list) option" where
  "unhex_ptr sizeof_T ptr out =
     (if hd (ptr @ [0]) \<noteq> 0 then
        (case decode_one sizeof_T (take (2 * sizeof_T) (ptr @ [0])) of
           Inl e \<Rightarrow> Some (Inl e)
         | Inr (v, rest) \<Rightarrow> unhex_ptr sizeof_T (drop (2 * sizeof_T) ptr) (out @ [v]))
      else Some (Inr out))"

declare unhex_ptr.simps [code]

subsection \<open>The reference the searchers are compared with\<close>

text \<open>An occurrence of the pattern at position \<open>p\<close> of the corpus, and the brute-force
  scan of the specification: the first of the positions \<open>0, 1, ..., length corpus\<close> with
  an occurrence, or \<open>length corpus\<close> (one past the end) when there is none.\<close>

definition matches_at :: "'a list \<Rightarrow> 'a list \<Rightarrow> nat \<Rightarrow> bool" where
  "matches_at corpus pat p \<longleftrightarrow>
     p + length pat \<le> length corpus \<and> take (length pat) (drop p corpus) = pat"

definition naive_search :: "'a list \<Rightarrow> 'a list \<Rightarrow> nat" where
  "naive_search corpus pat =
     (case find (matches_at corpus pat) [0..<Suc (length corpus)] of
        None \<Rightarrow> length corpus
      | Some p \<Rightarrow> p)"

text \<open>\<open>is_border xs k\<close>: the first \<open>k\<close> symbols of \<open>xs\<close> are a proper prefix of \<open>xs\<close> that is
  also a suffix of it. \<open>longest_border\<close> looks for the largest such \<open>k\<close> from
  \<open>length xs - 1\<close> downwards.\<close>

definition is_border :: "'a list \<Rightarrow> nat \<Rightarrow> bool" where
  "is_border xs k \<longleftrightarrow> k < length xs \<and> take k xs = drop (length xs - k) xs"

fun border_from :: "'a list \<Rightarrow> nat \<Rightarrow> nat" where
  "border_from xs 0 = 0"
| "border_from xs (Suc k) = (if is_border xs (Suc k) then Suc k else border_from xs k)"

definition longest_border :: "'a list \<Rightarrow> nat" where
  "longest_border xs = border_from xs (length xs - 1)"

definition failure_table :: "'a list \<Rightarrow> int list" where
  "failure_table p = - 1 # map (\<lambda>i. int (longest_border (take i p))) [1..<Suc (length p)]"

text \<open>What \<^verbatim>\<open>init_skip_table\<close> has established before round \<open>i\<close> of its loop.\<close>

definition kmp_inv :: "'a list \<Rightarrow> nat \<Rightarrow> int list \<Rightarrow> bool" where
  "kmp_inv p i skip \<longleftrightarrow>
     length skip = length p + 1 \<and> skip ! 0 = - 1 \<and>
     (\<forall>x. 0 < x \<and> x < i \<longrightarrow> skip ! x = int (longest_border (take x p)))"

text \<open>The table \<^verbatim>\<open>compute_bm_prefix\<close> is to produce, and what its loop has established
  before round \<open>i\<close>.\<close>

definition prefix_table :: "'a list \<Rightarrow> nat list" where
  "prefix_table p = map (\<lambda>i. longest_border (take (Suc i) p)) [0..<length p]"

definition prefix_inv :: "'a list \<Rightarrow> nat \<Rightarrow> nat list \<Rightarrow> bool" where
  "prefix_inv p i prefix \<longleftrightarrow>
     length prefix = length p \<and> (\<forall>x<i. prefix ! x = longest_border (take (Suc x) p))"

text \<open>What the search of \<^verbatim>\<open>boyer_moore\<close> needs of \<^verbatim>\<open>suffix_\<close>: its length, every entry
  between \<open>1\<close> and the period of the pattern, and the entries lowered by the second
  loop of \<^verbatim>\<open>create_suffix_table\<close>.\<close>

definition suffix_ok :: "'a list \<Rightarrow> nat list \<Rightarrow> bool" where
  "suffix_ok p sfx \<longleftrightarrow>
     length sfx = length p + 1 \<and>
     (\<forall>j\<le>length p. 1 \<le> sfx ! j \<and> sfx ! j \<le> length p - longest_border p) \<and>
     (\<forall>x<length p. sfx ! (length p - longest_border (take (Suc x) (rev p)))
                      \<le> x + 1 - longest_border (take (Suc x) (rev p)))"

text \<open>The skip tables the two constructors build.\<close>

definition bm_skip_table :: "'a list \<Rightarrow> 'a skip_table" where
  "bm_skip_table p = bm_skip_for p 0 (skip_table (length p) (- 1))"

definition bmh_skip_table :: "'a list \<Rightarrow> 'a skip_table" where
  "bmh_skip_table p = bmh_skip (boyer_moore_horspool p)"

text \<open>A sequence of \<^verbatim>\<open>insert (key, val)\<close> calls on either skip table, and the relation
  between an array and a map that answer every lookup alike.\<close>

fun array_inserts :: "(8 word \<times> int) list \<Rightarrow> skip_array \<Rightarrow> skip_array" where
  "array_inserts [] t = t"
| "array_inserts ((key, val) # calls) t = array_inserts calls (array_insert key val t)"

fun map_inserts :: "('a \<times> int) list \<Rightarrow> 'a skip_table \<Rightarrow> 'a skip_table" where
  "map_inserts [] t = t"
| "map_inserts ((key, val) # calls) t = map_inserts calls (skip_insert key val t)"

definition same_lookups :: "skip_array \<Rightarrow> 8 word skip_table \<Rightarrow> bool" where
  "same_lookups a t \<longleftrightarrow>
     length (skip_arr a) = 256 \<and> (\<forall>c. array_lookup a c = skip_lookup t c)"

text \<open>The hexadecimal digits, as the specification lists them.\<close>

definition is_hex_digit :: "char \<Rightarrow> bool" where
  "is_hex_digit c \<longleftrightarrow> c \<in> set ''0123456789ABCDEFabcdef''"

text \<open>An input symbol that is a hexadecimal digit once it is converted to \<^verbatim>\<open>char\<close>.\<close>

definition hex_symbol :: "int \<Rightarrow> bool" where
  "hex_symbol x \<longleftrightarrow> is_hex_digit (char_of x)"
section \<open>32-bit ints\<close>
lemma to_int_id: "- 2147483648 \<le> x \<Longrightarrow> x < 2147483648 \<Longrightarrow> to_int x = x"
  by (simp add: to_int_def signed_take_bit_int_eq_self)

lemma to_int_nat: "n < 2147483648 \<Longrightarrow> to_int (int n) = int n"
  by (simp add: to_int_id)

lemma to_int_wraps: "to_int 2147483648 = - 2147483648"
  by (simp add: to_int_def)

lemma sadd_1: "- 2147483648 \<le> x + 1 \<Longrightarrow> x < 2147483647 \<Longrightarrow> sadd x 1 = Some (x + 1)"
  by (simp add: sadd_def)


section \<open>Borders\<close>
lemma is_border_nth:
  "is_border xs k \<longleftrightarrow> k < length xs \<and> (\<forall>t<k. xs ! t = xs ! (length xs - k + t))"
  by (auto simp: is_border_def list_eq_iff_nth_eq)

lemma is_border_0: "xs \<noteq> [] \<Longrightarrow> is_border xs 0"
  by (simp add: is_border_def)

lemma border_from_le: "border_from xs n \<le> n"
  by (induction n) auto

lemma border_from_is: "xs \<noteq> [] \<Longrightarrow> is_border xs (border_from xs n)"
  by (induction n) (auto simp: is_border_0)

lemma border_from_max: "is_border xs k \<Longrightarrow> k \<le> n \<Longrightarrow> k \<le> border_from xs n"
proof (induction n)
  case 0
  then show ?case by simp
next
  case (Suc n)
  then show ?case by (cases "k = Suc n") auto
qed

lemma longest_border_is: "xs \<noteq> [] \<Longrightarrow> is_border xs (longest_border xs)"
  by (simp add: longest_border_def border_from_is)

lemma longest_border_max: "is_border xs k \<Longrightarrow> k \<le> longest_border xs"
  unfolding longest_border_def
  by (rule border_from_max) (auto simp: is_border_def)

lemma longest_border_less: "xs \<noteq> [] \<Longrightarrow> longest_border xs < length xs"
  using longest_border_is [of xs] by (simp add: is_border_def)

lemma pborder_nth:
  "i \<le> length p \<Longrightarrow>
   is_border (take i p) k \<longleftrightarrow> k < i \<and> (\<forall>t<k. p ! t = p ! (i - k + t))"
  by (auto simp: is_border_nth)

lemma pborder_Suc:
  assumes "i < length p"
  shows "is_border (take (Suc i) p) (Suc k) \<longleftrightarrow> is_border (take i p) k \<and> p ! k = p ! i"
proof -
  have "(\<forall>t<Suc k. p ! t = p ! (Suc i - Suc k + t)) \<longleftrightarrow>
        (\<forall>t<k. p ! t = p ! (i - k + t)) \<and> (k < i \<longrightarrow> p ! k = p ! i)" if "k < i"
    using that by (auto simp: less_Suc_eq)
  then show ?thesis
    using assms by (auto simp: pborder_nth)
qed

lemma pborder_border:
  assumes "i \<le> length p" and "is_border (take i p) j" and "c < j"
  shows "is_border (take i p) c \<longleftrightarrow> is_border (take j p) c"
proof -
  from assms have ji: "j < i" and eq: "\<forall>t<j. p ! t = p ! (i - j + t)"
    by (auto simp: pborder_nth)
  have jl: "j \<le> length p" using ji assms(1) by simp
  have "(\<forall>t<c. p ! t = p ! (i - c + t)) \<longleftrightarrow> (\<forall>t<c. p ! t = p ! (j - c + t))"
  proof -
    have "p ! (j - c + t) = p ! (i - c + t)" if "t < c" for t
    proof -
      have "j - c + t < j" using that assms(3) by simp
      with eq have "p ! (j - c + t) = p ! (i - j + (j - c + t))" by blast
      moreover have "i - j + (j - c + t) = i - c + t" using ji assms(3) by simp
      ultimately show ?thesis by simp
    qed
    then show ?thesis by auto
  qed
  then show ?thesis
    using assms(1,3) ji jl by (auto simp: pborder_nth)
qed

section \<open>The failure table of knuth_morris_pratt\<close>
lemma kmp_skip_while_result:
  assumes inv: "kmp_inv p i skip" and i: "1 \<le> i" "i \<le> length p"
    and j: "- 1 \<le> j"
    and jb: "0 \<le> j \<Longrightarrow> is_border (take (i - 1) p) (nat j)"
    and above: "\<And>b. is_border (take (i - 1) p) b \<Longrightarrow> j < int b \<Longrightarrow> p ! b \<noteq> p ! (i - 1)"
  shows "kmp_skip_while p skip (int i) j = Some (Inr (int (longest_border (take i p)) - 1))"
  using j jb above
proof (induction "nat (j + 1)" arbitrary: j rule: less_induct)
  case less
  have i1: "i - 1 < length p" "Suc (i - 1) = i" using i by auto
  have ext: "is_border (take i p) (Suc k) \<longleftrightarrow> is_border (take (i - 1) p) k \<and> p ! k = p ! (i - 1)" for k
    using pborder_Suc [OF i1(1), of k] i1(2) by simp
  have nonempty: "take i p \<noteq> []" using i by auto
  show ?case
  proof (cases "0 \<le> j")
    case False
    with less.prems have j: "j = - 1" by simp
    have "longest_border (take i p) = 0"
    proof (rule ccontr)
      assume "longest_border (take i p) \<noteq> 0"
      then obtain k where k: "longest_border (take i p) = Suc k" by (cases "longest_border (take i p)") auto
      from longest_border_is [OF nonempty] k have "is_border (take i p) (Suc k)" by simp
      with ext have "is_border (take (i - 1) p) k" "p ! k = p ! (i - 1)" by auto
      with less.prems(3) [of k] j show False by simp
    qed
    with j show ?thesis by (subst kmp_skip_while.simps) simp
  next
    case True
    define n where "n = nat j"
    with True have jn: "j = int n" by simp
    from less.prems(2) [OF True] have nb: "is_border (take (i - 1) p) n" by (simp add: n_def)
    then have n_lt: "n < i - 1" by (simp add: is_border_def)
    have rd1: "at_int p j = Some (p ! n)" using n_lt i jn by (simp add: at_int_def at_def)
    have rd2: "at_int p (int i - 1) = Some (p ! (i - 1))" using i by (simp add: at_int_def at_def nat_diff_distrib)
    show ?thesis
    proof (cases "p ! n = p ! (i - 1)")
      case True
      with nb ext have b: "is_border (take i p) (Suc n)" by simp
      have "k \<le> Suc n" if "is_border (take i p) k" for k
      proof (cases k)
        case 0 then show ?thesis by simp
      next
        case (Suc k')
        with that ext have "is_border (take (i - 1) p) k'" "p ! k' = p ! (i - 1)" by auto
        with less.prems(3) [of k'] jn have "k' \<le> n" by force
        with Suc show ?thesis by simp
      qed
      with longest_border_is [OF nonempty] have "longest_border (take i p) \<le> Suc n" by blast
      moreover from longest_border_max [OF b] have "Suc n \<le> longest_border (take i p)" .
      ultimately have "longest_border (take i p) = Suc n" by simp
      with True rd1 rd2 jn show ?thesis
        by (subst kmp_skip_while.simps) simp
    next
      case neq: False
      from inv have len: "length skip = length p + 1" and s0: "skip ! 0 = - 1"
        and sx: "\<And>x. 0 < x \<Longrightarrow> x < i \<Longrightarrow> skip ! x = int (longest_border (take x p))"
        by (auto simp: kmp_inv_def)
      have rd3: "at_int skip j = Some (skip ! n)" using n_lt i jn len by (simp add: at_int_def at_def)
      define j' where "j' = skip ! n"
      have step: "kmp_skip_while p skip (int i) j = kmp_skip_while p skip (int i) j'"
        using neq rd1 rd2 rd3 jn by (subst kmp_skip_while.simps) (simp add: j'_def)
      have "kmp_skip_while p skip (int i) j' = Some (Inr (int (longest_border (take i p)) - 1))"
      proof (cases "n = 0")
        case True
        then have j': "j' = - 1" using s0 by (simp add: j'_def)
        show ?thesis
        proof (rule less.hyps)
          show "nat (j' + 1) < nat (j + 1)" using j' jn by simp
          show "- 1 \<le> j'" using j' by simp
          show "is_border (take (i - 1) p) (nat j')" if "0 \<le> j'" using that j' by simp
          show "p ! b \<noteq> p ! (i - 1)" if "is_border (take (i - 1) p) b" "j' < int b" for b
          proof (cases "b = 0")
            case True with neq \<open>n = 0\<close> show ?thesis by simp
          next
            case False with that less.prems(3) [of b] jn \<open>n = 0\<close> show ?thesis by simp
          qed
        qed
      next
        case False
        then have npos: "0 < n" by simp
        define c where "c = longest_border (take n p)"
        have j': "j' = int c" using sx [of n] npos n_lt by (simp add: j'_def c_def)
        have nl: "n \<le> length p" using n_lt i by simp
        have tn: "take n p \<noteq> []" using npos nl by auto
        have cb: "is_border (take n p) c" unfolding c_def by (rule longest_border_is [OF tn])
        then have c_lt: "c < n" using nl by (simp add: is_border_def)
        have il: "i - 1 \<le> length p" using i by simp
        show ?thesis
        proof (rule less.hyps)
          show "nat (j' + 1) < nat (j + 1)" using j' jn c_lt by simp
          show "- 1 \<le> j'" using j' by simp
          show "is_border (take (i - 1) p) (nat j')" if "0 \<le> j'"
            using pborder_border [OF il nb c_lt] cb j' by simp
          show "p ! b \<noteq> p ! (i - 1)" if b: "is_border (take (i - 1) p) b" "j' < int b" for b
          proof -
            consider "n < b" | "b = n" | "b < n" by linarith
            then show ?thesis
            proof cases
              case 1 with less.prems(3) [OF b(1)] jn show ?thesis by simp
            next
              case 2 with neq show ?thesis by simp
            next
              case 3
              with pborder_border [OF il nb 3] b(1) have "is_border (take n p) b" by simp
              from longest_border_max [OF this] have "b \<le> c" by (simp add: c_def)
              with b(2) j' show ?thesis by simp
            qed
          qed
        qed
      qed
      with step show ?thesis by simp
    qed
  qed
qed
lemma kmp_inv_final:
  assumes "kmp_inv p (Suc (length p)) skip"
  shows "skip = failure_table p"
proof (rule nth_equalityI)
  show "length skip = length (failure_table p)"
    using assms by (simp add: kmp_inv_def failure_table_def del: upt_Suc)
next
  fix x assume "x < length skip"
  then have x: "x < Suc (length p)" using assms by (simp add: kmp_inv_def)
  show "skip ! x = failure_table p ! x"
  proof (cases x)
    case 0
    then show ?thesis using assms by (simp add: kmp_inv_def failure_table_def)
  next
    case (Suc y)
    then have "y < length p" using x by simp
    then have "map (\<lambda>i. int (longest_border (take i p))) [1..<Suc (length p)] ! y
           = int (longest_border (take (Suc y) p))"
      by (simp del: upt_Suc)
    moreover have "skip ! x = int (longest_border (take x p))"
      using assms x Suc by (simp add: kmp_inv_def)
    ultimately show ?thesis using Suc by (simp add: failure_table_def del: upt_Suc)
  qed
qed

text \<open>The loop, run up to a \<open>count\<close> that is at most the length of the pattern, fills
  the table up to \<open>count\<close>; with a \<open>count\<close> of \<open>2^31 - 1\<close> its last \<^verbatim>\<open>++i\<close> overflows.\<close>

lemma kmp_skip_for_count:
  assumes "kmp_inv p i skip" and "1 \<le> i" and "i \<le> Suc c"
    and cl: "c \<le> length p" and bound: "c \<le> 2147483647"
  shows "\<exists>skip'. kmp_inv p (Suc c) skip' \<and>
     kmp_skip_for p (int c) (int i) skip =
       (if c = 2147483647 \<and> i \<le> c then Some (Inl Overflow) else Some (Inr skip'))"
  using assms(1-3)
proof (induction "Suc c - i" arbitrary: i skip rule: less_induct)
  case less
  show ?case
  proof (cases "i \<le> c")
    case False
    with less.prems have "i = Suc c" by simp
    with less.prems(1) show ?thesis
      by (subst kmp_skip_for.simps) auto
  next
    case True
    then have ip: "i \<le> length p" using cl by simp
    from less.prems(1) have len: "length skip = length p + 1" and s0: "skip ! 0 = - 1"
      and sx: "\<And>x. 0 < x \<Longrightarrow> x < i \<Longrightarrow> skip ! x = int (longest_border (take x p))"
      by (auto simp: kmp_inv_def)
    define j0 where "j0 = skip ! (i - 1)"
    have rd: "at_int skip (int i - 1) = Some j0"
      using ip less.prems(2) len by (simp add: at_int_def at_def j0_def nat_diff_distrib)
    have il: "i - 1 \<le> length p" using ip by simp
    have w: "kmp_skip_while p skip (int i) j0 = Some (Inr (int (longest_border (take i p)) - 1))"
    proof (cases "i = 1")
      case True
      then have j0: "j0 = - 1" using s0 by (simp add: j0_def)
      show ?thesis
      proof (rule kmp_skip_while_result [OF less.prems(1,2) ip])
        show "- 1 \<le> j0" using j0 by simp
        show "is_border (take (i - 1) p) (nat j0)" if "0 \<le> j0" using that j0 by simp
        show "p ! b \<noteq> p ! (i - 1)" if "is_border (take (i - 1) p) b" for b
          using that True by (simp add: is_border_def)
      qed
    next
      case False
      then have i2: "0 < i - 1" "i - 1 < i" using less.prems(2) by auto
      have j0: "j0 = int (longest_border (take (i - 1) p))" using sx [OF i2] by (simp add: j0_def)
      have ne: "take (i - 1) p \<noteq> []" using i2 ip by auto
      show ?thesis
      proof (rule kmp_skip_while_result [OF less.prems(1,2) ip])
        show "- 1 \<le> j0" using j0 by simp
        show "is_border (take (i - 1) p) (nat j0)" using longest_border_is [OF ne] j0 by simp
        show "p ! b \<noteq> p ! (i - 1)" if "is_border (take (i - 1) p) b" "j0 < int b" for b
          using longest_border_max [OF that(1)] that(2) j0 by simp
      qed
    qed
    have "take i p \<noteq> []" using ip less.prems(2) by auto
    from longest_border_less [OF this] have lb: "longest_border (take i p) < i" by simp
    have sj: "sadd (int (longest_border (take i p)) - 1) 1
              = Some (int (longest_border (take i p)))"
      using lb True bound by (simp add: sadd_def)
    define skip' where "skip' = skip[i := int (longest_border (take i p))]"
    have pt: "put_int skip (int i) (int (longest_border (take i p))) = Some skip'"
      using ip len by (simp add: put_int_def put_def skip'_def)
    have inv': "kmp_inv p (Suc i) skip'"
      unfolding kmp_inv_def
    proof (intro conjI allI impI)
      show "length skip' = length p + 1" using len by (simp add: skip'_def)
      show "skip' ! 0 = - 1" using s0 less.prems(2) by (simp add: skip'_def)
      fix x assume x: "0 < x \<and> x < Suc i"
      have "i < length skip" using ip len by simp
      then show "skip' ! x = int (longest_border (take x p))"
        using x sx [of x] by (cases "x = i") (simp_all add: skip'_def)
    qed
    show ?thesis
    proof (cases "i = 2147483647")
      case over: True
      then have "sadd (int i) 1 = None" by (simp add: sadd_def)
      moreover have c: "c = 2147483647" using over True bound by simp
      ultimately have "kmp_skip_for p (int c) (int i) skip = Some (Inl Overflow)"
        using True rd w sj pt by (subst kmp_skip_for.simps) simp
      moreover have "kmp_inv p (Suc c) skip'" using inv' over c by simp
      ultimately show ?thesis using True c by auto
    next
      case False
      then have si: "sadd (int i) 1 = Some (int i + 1)"
        using True bound by (simp add: sadd_def)
      have "\<exists>skip''. kmp_inv p (Suc c) skip'' \<and>
         kmp_skip_for p (int c) (int (Suc i)) skip' =
           (if c = 2147483647 \<and> Suc i \<le> c then Some (Inl Overflow) else Some (Inr skip''))"
        by (rule less.hyps [OF _ inv']) (use True in auto)
      then obtain skip'' where inv'': "kmp_inv p (Suc c) skip''"
        and r: "kmp_skip_for p (int c) (int (Suc i)) skip' =
           (if c = 2147483647 \<and> Suc i \<le> c then Some (Inl Overflow) else Some (Inr skip''))"
        by blast
      have "Suc i \<le> c" if "c = 2147483647"
        using that False True by simp
      with r have "kmp_skip_for p (int c) (int i + 1) skip' =
         (if c = 2147483647 then Some (Inl Overflow) else Some (Inr skip''))"
        by (simp add: add.commute)
      with True rd w sj pt si have "kmp_skip_for p (int c) (int i) skip =
         (if c = 2147483647 \<and> i \<le> c then Some (Inl Overflow) else Some (Inr skip''))"
        by (subst kmp_skip_for.simps) simp
      with inv'' show ?thesis by blast
    qed
  qed
qed

text \<open>Run up to the length of the pattern, the loop builds the failure table when the
  pattern has fewer than \<open>2^31 - 1\<close> symbols.\<close>

lemma kmp_skip_for_result:
  assumes "kmp_inv p i skip" and "1 \<le> i" and "i \<le> Suc (length p)"
    and bound: "length p \<le> 2147483647"
  shows "kmp_skip_for p (int (length p)) (int i) skip =
     (if length p = 2147483647 \<and> i \<le> length p then Some (Inl Overflow)
      else Some (Inr (failure_table p)))"
proof -
  from kmp_skip_for_count [OF assms(1-3) order_refl bound] obtain skip' where
    inv: "kmp_inv p (Suc (length p)) skip'"
    and r: "kmp_skip_for p (int (length p)) (int i) skip =
       (if length p = 2147483647 \<and> i \<le> length p then Some (Inl Overflow)
        else Some (Inr skip'))"
    by blast
  from kmp_inv_final [OF inv] r show ?thesis by simp
qed

lemma init_skip_table_cases:
  assumes "length p \<le> 2147483647"
  shows "init_skip_table p (replicate (Suc (length p)) 0) =
     (if length p = 2147483647 then Some (Inl Overflow) else Some (Inr (failure_table p)))"
proof -
  have "kmp_inv p 1 ((replicate (Suc (length p)) 0)[0 := - 1])"
    by (simp add: kmp_inv_def)
  from kmp_skip_for_result [OF this _ _ assms] assms show ?thesis
    by (simp add: init_skip_table_def put_def to_int_nat del: replicate.simps)
qed

lemma init_skip_table_result:
  "length p < 2147483647 \<Longrightarrow>
   init_skip_table p (replicate (Suc (length p)) 0) = Some (Inr (failure_table p))"
  using init_skip_table_cases [of p] by (simp del: replicate.simps)

lemma knuth_morris_pratt_result:
  "length p < 2147483647 \<Longrightarrow>
   knuth_morris_pratt p = Some (Inr \<lparr>kmp_pat = p, kmp_skip = failure_table p\<rparr>)"
  by (simp add: knuth_morris_pratt_def init_skip_table_result del: replicate.simps)

text \<open>The constructor completes for a pattern of any length that \<^verbatim>\<open>count\<close> does not hold
  as \<open>2^31 - 1\<close>.\<close>

lemma to_int_le: "0 \<le> x \<Longrightarrow> to_int x \<le> x"
  by (simp add: to_int_def signed_take_bit_int_less_eq_self_iff)

lemma knuth_morris_pratt_completes:
  assumes "to_int (int (length p)) \<noteq> 2147483647"
  shows "\<exists>skip. knuth_morris_pratt p = Some (Inr \<lparr>kmp_pat = p, kmp_skip = skip\<rparr>)"
proof -
  define cnt where "cnt = to_int (int (length p))"
  define skip0 :: "int list" where "skip0 = (replicate (Suc (length p)) 0)[0 := - 1]"
  have inv: "kmp_inv p 1 skip0" by (simp add: kmp_inv_def skip0_def)
  have "\<exists>skip. kmp_skip_for p cnt 1 skip0 = Some (Inr skip)"
  proof (cases "1 \<le> cnt")
    case False
    then show ?thesis by (subst kmp_skip_for.simps) simp
  next
    case True
    define c where "c = nat cnt"
    have cnt: "cnt = int c" using True by (simp add: c_def)
    have "cnt \<le> int (length p)" unfolding cnt_def by (rule to_int_le) simp
    then have cl: "c \<le> length p" by (simp add: c_def)
    have "cnt < 2147483648"
      using signed_take_bit_int_less_exp [of 31 "int (length p)"]
      by (simp add: cnt_def to_int_def)
    with assms have cb: "c \<le> 2147483647" "c \<noteq> 2147483647" by (simp_all add: c_def cnt_def)
    from kmp_skip_for_count [OF inv _ _ cl cb(1)] cb(2) show ?thesis
      by (auto simp: cnt)
  qed
  then show ?thesis
    by (auto simp: knuth_morris_pratt_def init_skip_table_def put_def cnt_def skip0_def
          simp del: replicate.simps)
qed

text \<open>With \<open>2^31 - 1\<close> symbols the constructor overflows; with \<open>2^31\<close> symbols \<open>count\<close> is
  negative, the loop is not entered and the table stays as the vector was made.\<close>

lemma knuth_morris_pratt_overflow:
  assumes "length p = 2147483647"
  shows "knuth_morris_pratt p = Some (Inl Overflow)"
proof -
  have "init_skip_table p (replicate (Suc (length p)) 0) = Some (Inl Overflow)"
    using init_skip_table_cases [of p] assms by (simp del: replicate.simps)
  then show ?thesis
    by (simp add: knuth_morris_pratt_def del: replicate.simps)
qed

lemma knuth_morris_pratt_wrapped:
  assumes "length p = 2147483648"
  shows "knuth_morris_pratt p
     = Some (Inr \<lparr>kmp_pat = p, kmp_skip = (replicate (Suc (length p)) 0)[0 := - 1]\<rparr>)"
proof -
  have "kmp_skip_for p (- 2147483648) 1 skip = Some (Inr skip)" for skip
    by (subst kmp_skip_for.simps) simp
  moreover have "to_int (int (length p)) = - 2147483648"
    using assms by (simp add: to_int_wraps)
  ultimately have "init_skip_table p (replicate (Suc (length p)) 0)
      = Some (Inr ((replicate (Suc (length p)) 0)[0 := - 1]))"
    by (simp add: init_skip_table_def put_def del: replicate.simps)
  then show ?thesis
    by (simp add: knuth_morris_pratt_def del: replicate.simps)
qed

section \<open>The search of knuth_morris_pratt\<close>
lemma matches_at_nth:
  "matches_at c p q \<longleftrightarrow> q + length p \<le> length c \<and> (\<forall>t<length p. c ! (q + t) = p ! t)"
  by (auto simp: matches_at_def list_eq_iff_nth_eq)

lemma naive_search_found:
  assumes "matches_at c p q" and "\<And>r. r < q \<Longrightarrow> \<not> matches_at c p r"
  shows "naive_search c p = q"
proof -
  have q: "q < Suc (length c)" using assms(1) by (simp add: matches_at_def)
  have "find (matches_at c p) [0..<Suc (length c)] = Some q"
    unfolding find_Some_iff
  proof (intro exI [of _ q] conjI allI impI)
    show "q < length [0..<Suc (length c)]" using q by simp
    show "matches_at c p ([0..<Suc (length c)] ! q)" using q assms(1) by (simp del: upt_Suc)
    show "q = [0..<Suc (length c)] ! q" using q by (simp del: upt_Suc)
    fix j assume "j < q"
    then show "\<not> matches_at c p ([0..<Suc (length c)] ! j)"
      using q assms(2) [of j] by (simp del: upt_Suc)
  qed
  then show ?thesis by (simp add: naive_search_def del: upt_Suc)
qed

lemma naive_search_none:
  assumes "\<And>r. \<not> matches_at c p r"
  shows "naive_search c p = length c"
proof -
  have "find (matches_at c p) [0..<Suc (length c)] = None"
    unfolding find_None_iff using assms by blast
  then show ?thesis by (simp add: naive_search_def del: upt_Suc)
qed

lemma kmp_while_result:
  assumes "idx < length p" and "s + length p \<le> length c"
    and "\<forall>t<idx. c ! (s + t) = p ! t"
  shows "(kmp_while p (at c) s idx = Inr Matched \<and> matches_at c p s) \<or>
         (\<exists>k. kmp_while p (at c) s idx = Inr (Mismatch k) \<and> idx \<le> k \<and> k < length p \<and>
              (\<forall>t<k. c ! (s + t) = p ! t) \<and> c ! (s + k) \<noteq> p ! k)"
  using assms
proof (induction "length p - idx" arbitrary: idx rule: less_induct)
  case less
  have rd: "at p idx = Some (p ! idx)" "at c (s + idx) = Some (c ! (s + idx))"
    using less.prems(1,2) by (simp_all add: at_def)
  show ?case
  proof (cases "p ! idx = c ! (s + idx)")
    case False
    then have "kmp_while p (at c) s idx = Inr (Mismatch idx)"
      using rd by (subst kmp_while.simps) simp
    with False less.prems show ?thesis by auto
  next
    case True
    have pre: "\<forall>t<Suc idx. c ! (s + t) = p ! t"
      using True less.prems(3) by (auto simp: less_Suc_eq)
    show ?thesis
    proof (cases "idx + 1 = length p")
      case last: True
      then have "kmp_while p (at c) s idx = Inr Matched"
        using rd True by (subst kmp_while.simps) simp
      moreover have "matches_at c p s"
        using pre last less.prems(2) by (simp add: matches_at_nth)
      ultimately show ?thesis by simp
    next
      case False
      then have lt: "Suc idx < length p" using less.prems(1) by simp
      have step: "kmp_while p (at c) s idx = kmp_while p (at c) s (Suc idx)"
        using rd True False by (subst kmp_while.simps) simp
      have "(kmp_while p (at c) s (Suc idx) = Inr Matched \<and> matches_at c p s) \<or>
         (\<exists>k. kmp_while p (at c) s (Suc idx) = Inr (Mismatch k) \<and> Suc idx \<le> k \<and> k < length p \<and>
              (\<forall>t<k. c ! (s + t) = p ! t) \<and> c ! (s + k) \<noteq> p ! k)"
        by (rule less.hyps [OF _ lt less.prems(2) pre]) (use lt in simp)
      with step show ?thesis by auto
    qed
  qed
qed

lemma failure_table_length: "length (failure_table p) = Suc (length p)"
  by (simp add: failure_table_def del: upt_Suc)

lemma failure_table_0: "failure_table p ! 0 = - 1"
  by (simp add: failure_table_def del: upt_Suc)

lemma failure_table_nth:
  "0 < i \<Longrightarrow> i \<le> length p \<Longrightarrow> failure_table p ! i = int (longest_border (take i p))"
  by (cases i) (simp_all add: failure_table_def del: upt_Suc)

text \<open>No occurrence starts strictly between an alignment and the alignment KMP moves to.\<close>

lemma kmp_shift_safe:
  assumes k: "0 < k" "k < length p"
    and pre: "\<And>t. t < k \<Longrightarrow> c ! (s + t) = p ! t"
    and d: "0 < d" "d < k - longest_border (take k p)"
  shows "\<not> matches_at c p (s + d)"
proof
  assume m: "matches_at c p (s + d)"
  have dk: "d < k" using d by simp
  have "p ! t = p ! (k - (k - d) + t)" if "t < k - d" for t
  proof -
    have "c ! (s + d + t) = p ! t" using m that k by (simp add: matches_at_nth)
    moreover have "c ! (s + (d + t)) = p ! (d + t)" using pre [of "d + t"] that by simp
    moreover have "k - (k - d) = d" using dk by simp
    ultimately show ?thesis by (simp add: add.assoc)
  qed
  then have "is_border (take k p) (k - d)"
    using k d by (simp add: pborder_nth)
  from longest_border_max [OF this] d show False by simp
qed

lemma kmp_loop_result:
  assumes m: "0 < length p" "length p \<le> length c"
    and "idx < length p" and "s + idx \<le> length c"
    and "\<And>t. t < idx \<Longrightarrow> c ! (s + t) = p ! t"
    and "\<And>q. q < s \<Longrightarrow> \<not> matches_at c p q"
  shows "kmp_loop p (failure_table p) (at c) (length c) (length c - length p) s idx
         = Some (Inr (naive_search c p))"
  using assms(3-)
proof (induction "Suc (length c) - s" arbitrary: s idx rule: less_induct)
  case less
  show ?case
  proof (cases "s \<le> length c - length p")
    case False
    have "\<not> matches_at c p q" for q
      using less.prems(4) [of q] False by (cases "q < s") (auto simp: matches_at_def)
    then have "naive_search c p = length c" by (rule naive_search_none)
    with False show ?thesis by (subst kmp_loop.simps) (simp add: kmp_body_def)
  next
    case True
    then have fit: "s + length p \<le> length c" using m by simp
    have "\<forall>t<idx. c ! (s + t) = p ! t" using less.prems(3) by blast
    from kmp_while_result [OF less.prems(1) fit this]
    show ?thesis
    proof (elim disjE conjE exE)
      assume "kmp_while p (at c) s idx = Inr Matched" "matches_at c p s"
      moreover from this less.prems(4) have "naive_search c p = s"
        by (intro naive_search_found) auto
      ultimately show ?thesis using True by (subst kmp_loop.simps) (simp add: kmp_body_def)
    next
      fix k
      assume w: "kmp_while p (at c) s idx = Inr (Mismatch k)"
        and k: "idx \<le> k" "k < length p"
        and pre: "\<forall>t<k. c ! (s + t) = p ! t" and neq: "c ! (s + k) \<noteq> p ! k"
      define f where "f = failure_table p ! k"
      have rd: "at (failure_table p) k = Some f"
        using k by (simp add: at_def failure_table_length f_def)
      have nomatch_s: "\<not> matches_at c p s"
        using neq k by (auto simp: matches_at_nth)
      show ?thesis
      proof (cases "k = 0")
        case True
        then have f: "f = - 1" by (simp add: f_def failure_table_0)
        have "kmp_loop p (failure_table p) (at c) (length c) (length c - length p) (Suc s) 0
              = Some (Inr (naive_search c p))"
        proof (rule less.hyps)
          show "Suc (length c) - Suc s < Suc (length c) - s" using fit by simp
          show "0 < length p" by (rule m)
          show "Suc s + 0 \<le> length c" using fit m(1) by (cases p) auto
          show "\<not> matches_at c p q" if "q < Suc s" for q
            using that less.prems(4) [of q] nomatch_s by (cases "q = s") auto
        qed simp
        moreover have "nat (int s + (int k - f)) = Suc s" using True f by simp
        ultimately show ?thesis
          using \<open>s \<le> length c - length p\<close> w rd True f by (subst kmp_loop.simps) (simp add: kmp_body_def)
      next
        case False
        then have kpos: "0 < k" by simp
        define b where "b = longest_border (take k p)"
        have f: "f = int b" using kpos k by (simp add: f_def b_def failure_table_nth)
        have tk: "take k p \<noteq> []" using kpos k by auto
        have bb: "is_border (take k p) b" unfolding b_def by (rule longest_border_is [OF tk])
        then have b_lt: "b < k" and beq: "\<forall>t<b. p ! t = p ! (k - b + t)"
          using k by (auto simp: pborder_nth)
        define s' where "s' = s + (k - b)"
        have s'_eq: "nat (int s + (int k - f)) = s'" using f b_lt by (simp add: s'_def)
        have "kmp_loop p (failure_table p) (at c) (length c) (length c - length p) s' b
              = Some (Inr (naive_search c p))"
        proof (rule less.hyps)
          show "Suc (length c) - s' < Suc (length c) - s" using fit b_lt k by (simp add: s'_def)
          show "b < length p" using b_lt k by simp
          show "s' + b \<le> length c" using fit b_lt k by (simp add: s'_def)
          show "c ! (s' + t) = p ! t" if "t < b" for t
          proof -
            have "k - b + t < k" using that b_lt by simp
            with pre have "c ! (s + (k - b + t)) = p ! (k - b + t)" by blast
            with beq that show ?thesis by (simp add: s'_def add.assoc)
          qed
          show "\<not> matches_at c p q" if "q < s'" for q
          proof -
            consider "q < s" | "q = s" | "s < q" by linarith
            then show ?thesis
            proof cases
              case 1 then show ?thesis by (rule less.prems(4))
            next
              case 2 with nomatch_s show ?thesis by simp
            next
              case 3
              define d where "d = q - s"
              have "0 < d" "d < k - longest_border (take k p)" "q = s + d"
                using 3 that by (auto simp: d_def s'_def b_def)
              with kmp_shift_safe [OF kpos k(2), of c s d] pre show ?thesis by blast
            qed
          qed
        qed
        moreover have "\<not> int s + (int k - f) < 0" using f b_lt by simp
        ultimately show ?thesis
          using s'_eq \<open>s \<le> length c - length p\<close> w rd f by (subst kmp_loop.simps) (simp add: kmp_body_def)
      qed
    qed
  qed
qed

lemma kmp_search_naive:
  assumes b: "length p < 2147483647"
  shows "knuth_morris_pratt_search c p = Some (Inr (naive_search c p))"
proof -
  note r = knuth_morris_pratt_result [OF b]
  consider "length c = 0" | "length c \<noteq> 0" "p = []" | "length c \<noteq> 0" "p \<noteq> []" "length c < length p"
    | "p \<noteq> []" "length p \<le> length c" by linarith
  then show ?thesis
  proof cases
    case 1
    have "naive_search c p = 0"
    proof (cases "p = []")
      case True then show ?thesis using 1 by (intro naive_search_found) (auto simp: matches_at_def)
    next
      case False then show ?thesis using 1 naive_search_none [of c p] by (auto simp: matches_at_def)
    qed
    with 1 r show ?thesis
      by (simp add: knuth_morris_pratt_search_def kmp_call_def)
  next
    case 2
    have "naive_search c p = 0" using 2 by (intro naive_search_found) (auto simp: matches_at_def)
    with 2 r show ?thesis
      by (simp add: knuth_morris_pratt_search_def kmp_call_def)
  next
    case 3
    have "naive_search c p = length c" using 3 by (intro naive_search_none) (auto simp: matches_at_def)
    with 3 r show ?thesis
      by (simp add: knuth_morris_pratt_search_def kmp_call_def)
  next
    case 4
    then have "kmp_loop p (failure_table p) (at c) (length c) (length c - length p) 0 0
          = Some (Inr (naive_search c p))"
      by (intro kmp_loop_result) auto
    with 4 r show ?thesis
      by (auto simp: knuth_morris_pratt_search_def kmp_call_def kmp_do_search_def usub_def)
  qed
qed

section \<open>The tables of boyer_moore\<close>
lemma longest_border_Suc_cases:
  assumes i: "0 < i" "i < length p"
  shows "(0 < longest_border (take (Suc i) p) \<and>
           p ! (longest_border (take (Suc i) p) - 1) = p ! i) \<or>
         (longest_border (take (Suc i) p) = 0 \<and> p ! 0 \<noteq> p ! i)"
proof (cases "longest_border (take (Suc i) p)")
  case 0
  have "p ! 0 \<noteq> p ! i"
  proof
    assume "p ! 0 = p ! i"
    moreover have "is_border (take i p) 0" using i by (simp add: is_border_def)
    ultimately have "is_border (take (Suc i) p) (Suc 0)" using i by (simp add: pborder_Suc)
    from longest_border_max [OF this] 0 show False by simp
  qed
  with 0 show ?thesis by simp
next
  case (Suc k)
  have "take (Suc i) p \<noteq> []" using i by auto
  from longest_border_is [OF this] Suc have "is_border (take (Suc i) p) (Suc k)" by simp
  then have "p ! k = p ! i" using i by (simp add: pborder_Suc)
  with Suc show ?thesis by simp
qed

lemma prefix_while_result:
  assumes inv: "prefix_inv p i prefix" and i: "0 < i" "i < length p"
    and kb: "is_border (take i p) k"
    and above: "\<And>b. is_border (take i p) b \<Longrightarrow> k < b \<Longrightarrow> p ! b \<noteq> p ! i"
  shows "prefix_while p prefix i k = Some (Inr (longest_border (take (Suc i) p) - 1))"
  using kb above
proof (induction k rule: less_induct)
  case (less k)
  have ext: "is_border (take (Suc i) p) (Suc b) \<longleftrightarrow> is_border (take i p) b \<and> p ! b = p ! i" for b
    using pborder_Suc [OF i(2)] by simp
  have nonempty: "take (Suc i) p \<noteq> []" using i by auto
  have k_lt: "k < i" using less.prems(1) i by (simp add: is_border_def)
  have upper: "longest_border (take (Suc i) p) \<le> Suc b"
    if "\<And>b'. is_border (take i p) b' \<Longrightarrow> b < b' \<Longrightarrow> p ! b' \<noteq> p ! i" for b
  proof (cases "longest_border (take (Suc i) p)")
    case 0 then show ?thesis by simp
  next
    case (Suc l)
    with longest_border_is [OF nonempty] have "is_border (take (Suc i) p) (Suc l)" by simp
    with ext have "is_border (take i p) l" "p ! l = p ! i" by auto
    with that [of l] have "l \<le> b" by force
    with Suc show ?thesis by simp
  qed
  show ?case
  proof (cases "k = 0")
    case True
    from upper [of 0] less.prems(2) True have "longest_border (take (Suc i) p) - 1 = 0" by force
    with True show ?thesis by (subst prefix_while.simps) simp
  next
    case False
    then have kpos: "0 < k" by simp
    have rd: "at p k = Some (p ! k)" "at p i = Some (p ! i)"
      using k_lt i by (simp_all add: at_def)
    show ?thesis
    proof (cases "p ! k = p ! i")
      case True
      with less.prems(1) ext have "is_border (take (Suc i) p) (Suc k)" by simp
      from longest_border_max [OF this] upper [of k] less.prems(2)
      have "longest_border (take (Suc i) p) = Suc k" by force
      with True rd kpos show ?thesis by (subst prefix_while.simps) simp
    next
      case neq: False
      from inv have len: "length prefix = length p"
        and px: "\<And>x. x < i \<Longrightarrow> prefix ! x = longest_border (take (Suc x) p)"
        by (auto simp: prefix_inv_def)
      define c where "c = longest_border (take k p)"
      have "prefix ! (k - 1) = c" using px [of "k - 1"] kpos k_lt by (simp add: c_def)
      then have rd3: "at prefix (k - 1) = Some c" using k_lt i len by (simp add: at_def)
      have tk: "take k p \<noteq> []" using kpos k_lt i by auto
      have cb: "is_border (take k p) c" unfolding c_def by (rule longest_border_is [OF tk])
      then have c_lt: "c < k" using k_lt i by (simp add: is_border_def)
      have il: "i \<le> length p" using i by simp
      have step: "prefix_while p prefix i k = prefix_while p prefix i c"
        using neq rd rd3 kpos by (subst prefix_while.simps) simp
      have "prefix_while p prefix i c = Some (Inr (longest_border (take (Suc i) p) - 1))"
      proof (rule less.IH [OF c_lt])
        show "is_border (take i p) c"
          using pborder_border [OF il less.prems(1) c_lt] cb by simp
        show "p ! b \<noteq> p ! i" if b: "is_border (take i p) b" "c < b" for b
        proof -
          consider "k < b" | "b = k" | "b < k" by linarith
          then show ?thesis
          proof cases
            case 1 with less.prems(2) [OF b(1)] show ?thesis by simp
          next
            case 2 with neq show ?thesis by simp
          next
            case 3
            with pborder_border [OF il less.prems(1) 3] b(1) have "is_border (take k p) b" by simp
            from longest_border_max [OF this] b(2) show ?thesis by (simp add: c_def)
          qed
        qed
      qed
      with step show ?thesis by simp
    qed
  qed
qed

lemma prefix_inv_final:
  assumes "prefix_inv p (length p) prefix"
  shows "prefix = prefix_table p"
  using assms by (auto simp: prefix_inv_def prefix_table_def intro!: nth_equalityI)

lemma prefix_for_result:
  assumes "prefix_inv p i prefix" and "0 < i" and "i \<le> length p"
    and "k = longest_border (take i p)"
  shows "prefix_for p (length p) i k prefix = Some (Inr (prefix_table p))"
  using assms
proof (induction "length p - i" arbitrary: i k prefix rule: less_induct)
  case less
  show ?case
  proof (cases "i < length p")
    case False
    with less.prems have "i = length p" by simp
    with less.prems(1) prefix_inv_final [of p prefix] show ?thesis
      by (subst prefix_for.simps) simp
  next
    case True
    from less.prems(1) have len: "length prefix = length p" by (simp add: prefix_inv_def)
    have ne: "take i p \<noteq> []" using less.prems(2) True by auto
    define l where "l = longest_border (take (Suc i) p)"
    define k1 where "k1 = l - 1"
    have w: "prefix_while p prefix i k = Some (Inr k1)"
      unfolding l_def k1_def
    proof (rule prefix_while_result [OF less.prems(1,2) True])
      show "is_border (take i p) k" using longest_border_is [OF ne] less.prems(4) by simp
      show "p ! b \<noteq> p ! i" if "is_border (take i p) b" "k < b" for b
        using longest_border_max [OF that(1)] that(2) less.prems(4) by simp
    qed
    have tne: "take (Suc i) p \<noteq> []" using True by auto
    have l_le: "l \<le> i" using longest_border_less [OF tne] True by (simp add: l_def)
    have rd: "at p k1 = Some (p ! k1)" "at p i = Some (p ! i)"
      using l_le True by (simp_all add: at_def k1_def)
    from longest_border_Suc_cases [OF less.prems(2) True]
    have k2: "(if p ! k1 = p ! i then k1 + 1 else k1) = l"
      by (auto simp: l_def k1_def)
    define prefix' where "prefix' = prefix[i := l]"
    have pt: "put prefix i l = Some prefix'" using True len by (simp add: put_def prefix'_def)
    have inv': "prefix_inv p (Suc i) prefix'"
      unfolding prefix_inv_def
    proof (intro conjI allI impI)
      show "length prefix' = length p" using len by (simp add: prefix'_def)
      fix x assume "x < Suc i"
      moreover have "i < length prefix" using True len by simp
      ultimately show "prefix' ! x = longest_border (take (Suc x) p)"
        using less.prems(1) by (cases "x = i") (simp_all add: prefix'_def prefix_inv_def l_def)
    qed
    have "prefix_for p (length p) (Suc i) l prefix' = Some (Inr (prefix_table p))"
      by (rule less.hyps [OF _ inv']) (use True in \<open>auto simp: l_def\<close>)
    then have rec: "prefix_for p (length p) (i + 1) l prefix' = Some (Inr (prefix_table p))"
      by simp
    have "prefix_for p (length p) i k prefix =
          (case put prefix i (if p ! k1 = p ! i then k1 + 1 else k1) of
             None \<Rightarrow> Some (Inl OutOfRange)
           | Some prefix' \<Rightarrow>
               prefix_for p (length p) (i + 1) (if p ! k1 = p ! i then k1 + 1 else k1) prefix')"
      using True w rd by (subst prefix_for.simps) (simp split del: if_split)
    also have "\<dots> = Some (Inr (prefix_table p))"
      unfolding k2 using pt rec by simp
    finally show ?thesis .
  qed
qed

lemma longest_border_single: "longest_border [a] = 0"
  by (simp add: longest_border_def)

lemma compute_bm_prefix_result:
  assumes "p \<noteq> []"
  shows "compute_bm_prefix p (replicate (length p) 0) = Some (Inr (prefix_table p))"
proof -
  from assms obtain a q where p: "p = a # q" by (cases p) auto
  have inv: "prefix_inv p 1 ((replicate (length p) 0)[0 := 0])"
    using p by (simp add: prefix_inv_def longest_border_single)
  have k: "0 = longest_border (take 1 p)" using p by (simp add: longest_border_single)
  have "prefix_for p (length p) 1 0 ((replicate (length p) 0)[0 := 0])
        = Some (Inr (prefix_table p))"
    by (rule prefix_for_result [OF inv _ _ k]) (use p in auto)
  then show ?thesis
    using p by (simp add: compute_bm_prefix_def put_def)
qed

lemma prefix_table_length: "length (prefix_table p) = length p"
  by (simp add: prefix_table_def)

lemma prefix_table_nth:
  "i < length p \<Longrightarrow> prefix_table p ! i = longest_border (take (Suc i) p)"
  by (simp add: prefix_table_def)

lemma prefix_table_le: "i < length p \<Longrightarrow> prefix_table p ! i \<le> i"
proof -
  assume i: "i < length p"
  then have "take (Suc i) p \<noteq> []" by auto
  from longest_border_less [OF this] i show ?thesis by (simp add: prefix_table_nth)
qed
lemma suffix_fill_result:
  assumes "length suffix = count + 1" and "at prefix (count - 1) = Some v" and "v \<le> count"
    and "i \<le> count + 1" and "0 < count"
  shows "suffix_fill count prefix i suffix
         = Inr (take i suffix @ replicate (count + 1 - i) (count - v))"
  using assms(1,4)
proof (induction "count + 1 - i" arbitrary: i suffix rule: less_induct)
  case less
  show ?case
  proof (cases "i \<le> count")
    case False
    with less.prems have "i = count + 1" by simp
    with less.prems show ?thesis by (subst suffix_fill.simps) simp
  next
    case True
    define suffix' where "suffix' = suffix[i := count - v]"
    have pt: "put suffix i (count - v) = Some suffix'"
      using True less.prems by (simp add: put_def suffix'_def)
    have "suffix_fill count prefix (i + 1) suffix'
          = Inr (take (i + 1) suffix' @ replicate (count + 1 - (i + 1)) (count - v))"
      by (rule less.hyps) (use True less.prems in \<open>auto simp: suffix'_def\<close>)
    moreover have "take (i + 1) suffix' @ replicate (count + 1 - (i + 1)) (count - v)
          = take i suffix @ replicate (count + 1 - i) (count - v)"
    proof -
      have il: "i < length suffix" using True less.prems by simp
      have "take (i + 1) suffix' = take i suffix @ [count - v]"
        using il by (simp add: suffix'_def take_Suc_conv_app_nth)
      moreover have "replicate (count + 1 - i) (count - v)
          = (count - v) # replicate (count + 1 - (i + 1)) (count - v)"
        using True by (simp add: Suc_diff_le flip: replicate_Suc)
      ultimately show ?thesis by simp
    qed
    ultimately show ?thesis
      using True assms(2,3,5) pt by (subst suffix_fill.simps) (simp add: usub_def Suc_le_eq)
  qed
qed

lemma suffix_lower_result:
  assumes plen: "length pr = count" and ple: "\<forall>x<count. pr ! x \<le> x"
    and len: "length suffix = count + 1"
  shows "\<exists>sfx. suffix_lower count pr i suffix = Inr sfx \<and> length sfx = count + 1 \<and>
           (\<forall>j\<le>count. sfx ! j \<le> suffix ! j) \<and>
           (\<forall>x. i \<le> x \<and> x < count \<longrightarrow> sfx ! (count - pr ! x) \<le> x + 1 - pr ! x) \<and>
           ((\<forall>j\<le>count. 1 \<le> suffix ! j) \<longrightarrow> (\<forall>j\<le>count. 1 \<le> sfx ! j))"
  using len
proof (induction "count - i" arbitrary: i suffix rule: less_induct)
  case less
  show ?case
  proof (cases "i < count")
    case False
    then show ?thesis using less.prems by (subst suffix_lower.simps) simp
  next
    case True
    define v where "v = pr ! i"
    define j where "j = count - v"
    define k where "k = i + 1 - v"
    have v: "v \<le> i" using ple True by (simp add: v_def)
    have rd: "at pr i = Some v" "usub count v = Some j" "usub (i + 1) v = Some k"
      "at suffix j = Some (suffix ! j)"
      using True v plen less.prems by (simp_all add: at_def usub_def v_def j_def k_def)
    have j: "j \<le> count" and k: "1 \<le> k" using v by (simp_all add: j_def k_def)
    show ?thesis
    proof (cases "k < suffix ! j")
      case lower: True
      define suffix' where "suffix' = suffix[j := k]"
      have pt: "put suffix j k = Some suffix'" using j less.prems by (simp add: put_def suffix'_def)
      have len': "length suffix' = count + 1" using less.prems by (simp add: suffix'_def)
      have dec: "count - (i + 1) < count - i" using True by simp
      from less.hyps [OF dec len']
      obtain sfx where s: "suffix_lower count pr (i + 1) suffix' = Inr sfx"
        "length sfx = count + 1" "\<forall>j\<le>count. sfx ! j \<le> suffix' ! j"
        "\<forall>x. i + 1 \<le> x \<and> x < count \<longrightarrow> sfx ! (count - pr ! x) \<le> x + 1 - pr ! x"
        "(\<forall>j\<le>count. 1 \<le> suffix' ! j) \<longrightarrow> (\<forall>j\<le>count. 1 \<le> sfx ! j)"
        by auto
      have le': "suffix' ! u \<le> suffix ! u" if "u \<le> count" for u
        using that lower less.prems by (cases "u = j") (simp_all add: suffix'_def)
      have "suffix_lower count pr i suffix = Inr sfx"
        using True rd lower pt s(1) by (subst suffix_lower.simps) simp
      moreover have "\<forall>u\<le>count. sfx ! u \<le> suffix ! u"
        using s(3) le' by (meson order_trans)
      moreover have "sfx ! (count - pr ! x) \<le> x + 1 - pr ! x" if "i \<le> x \<and> x < count" for x
      proof (cases "x = i")
        case True
        have "sfx ! j \<le> suffix' ! j" using s(3) j by simp
        also have "suffix' ! j = k" using j less.prems by (simp add: suffix'_def)
        finally show ?thesis using True by (simp add: j_def k_def v_def)
      next
        case False
        with that s(4) show ?thesis by simp
      qed
      moreover have "\<forall>u\<le>count. 1 \<le> sfx ! u" if a: "\<forall>u\<le>count. 1 \<le> suffix ! u"
      proof -
        have "1 \<le> suffix' ! u" if "u \<le> count" for u
          using that a k less.prems by (cases "u = j") (simp_all add: suffix'_def)
        with s(5) show ?thesis by simp
      qed
      ultimately show ?thesis using s(2) by blast
    next
      case keep: False
      have dec: "count - (i + 1) < count - i" using True by simp
      from less.hyps [OF dec less.prems]
      obtain sfx where s: "suffix_lower count pr (i + 1) suffix = Inr sfx"
        "length sfx = count + 1" "\<forall>j\<le>count. sfx ! j \<le> suffix ! j"
        "\<forall>x. i + 1 \<le> x \<and> x < count \<longrightarrow> sfx ! (count - pr ! x) \<le> x + 1 - pr ! x"
        "(\<forall>j\<le>count. 1 \<le> suffix ! j) \<longrightarrow> (\<forall>j\<le>count. 1 \<le> sfx ! j)"
        by auto
      have "suffix_lower count pr i suffix = Inr sfx"
        using True rd keep s(1) by (subst suffix_lower.simps) simp
      moreover have "sfx ! (count - pr ! x) \<le> x + 1 - pr ! x" if "i \<le> x \<and> x < count" for x
      proof (cases "x = i")
        case True
        have "sfx ! j \<le> suffix ! j" using s(3) j by simp
        also have "suffix ! j \<le> k" using keep by simp
        finally show ?thesis using True by (simp add: j_def k_def v_def)
      next
        case False
        with that s(4) show ?thesis by simp
      qed
      ultimately show ?thesis using s(2,3,5) by blast
    qed
  qed
qed

lemma rev_prefix_table_le:
  "x < length p \<Longrightarrow> longest_border (take (Suc x) (rev p)) \<le> x"
  using prefix_table_le [of x "rev p"] by (simp add: prefix_table_nth)

lemma create_suffix_table_result:
  assumes "p \<noteq> []"
  shows "\<exists>sfx. create_suffix_table p (replicate (length p + 1) 0) = Some (Inr sfx)
           \<and> suffix_ok p sfx"
proof -
  define m where "m = length p"
  have mpos: "0 < m" using assms by (simp add: m_def)
  define d where "d = m - longest_border p"
  have lb: "longest_border p < m" using longest_border_less [OF assms] by (simp add: m_def)
  have dpos: "1 \<le> d" using lb by (simp add: d_def)
  have pl: "prefix_table p ! (m - 1) = longest_border p"
    using mpos by (simp add: prefix_table_nth m_def)
  have rd: "at (prefix_table p) (m - 1) = Some (longest_border p)"
    using mpos pl by (simp add: at_def prefix_table_length m_def)
  define init where "init = replicate (m + 1) d"
  have init: "length init = m + 1" "\<And>j. j \<le> m \<Longrightarrow> init ! j = d"
    by (simp_all add: init_def less_Suc_eq_le del: replicate.simps)
  have fill: "suffix_fill m (prefix_table p) 0 (replicate (m + 1) 0) = Inr init"
    using suffix_fill_result [OF _ rd, of "replicate (m + 1) 0" 0] lb mpos
    by (simp add: d_def init_def del: replicate.simps)
  have "\<exists>sfx. suffix_lower m (prefix_table (rev p)) 0 init = Inr sfx \<and>
          length sfx = m + 1 \<and>
          (\<forall>j\<le>m. sfx ! j \<le> init ! j) \<and>
          (\<forall>x. 0 \<le> x \<and> x < m \<longrightarrow>
               sfx ! (m - prefix_table (rev p) ! x) \<le> x + 1 - prefix_table (rev p) ! x) \<and>
          ((\<forall>j\<le>m. 1 \<le> init ! j) \<longrightarrow> (\<forall>j\<le>m. 1 \<le> sfx ! j))"
  proof (rule suffix_lower_result)
    show "length (prefix_table (rev p)) = m" by (simp add: prefix_table_length m_def)
    show "\<forall>x<m. prefix_table (rev p) ! x \<le> x"
      using prefix_table_le [of _ "rev p"] by (simp add: m_def)
    show "length init = m + 1" by (rule init)
  qed
  then obtain sfx where s: "suffix_lower m (prefix_table (rev p)) 0 init = Inr sfx"
    "length sfx = m + 1" "\<forall>j\<le>m. sfx ! j \<le> init ! j"
    "\<forall>x<m. sfx ! (m - prefix_table (rev p) ! x) \<le> x + 1 - prefix_table (rev p) ! x"
    "(\<forall>j\<le>m. 1 \<le> init ! j) \<longrightarrow> (\<forall>j\<le>m. 1 \<le> sfx ! j)"
    by auto
  have s3: "\<forall>j\<le>m. sfx ! j \<le> d" using s(3) init(2) by simp
  have s5: "\<forall>j\<le>m. 1 \<le> sfx ! j" using s(5) init(2) dpos by simp
  have "create_suffix_table p (replicate (length p + 1) 0) = Some (Inr sfx)"
    using assms fill s(1) compute_bm_prefix_result [OF assms]
      compute_bm_prefix_result [of "rev p"]
    by (simp add: create_suffix_table_def m_def del: replicate.simps)
  moreover have "suffix_ok p sfx"
    unfolding suffix_ok_def using s(2,4) s3 s5
    by (simp add: m_def d_def prefix_table_nth)
  ultimately show ?thesis by blast
qed

section \<open>The search of boyer_moore\<close>

text \<open>The good-suffix shift skips no occurrence: a shift \<open>s\<close> under which the pattern
  agrees with itself on the matched suffix is at least the table entry.\<close>

lemma suffix_safe:
  assumes ok: "suffix_ok p sfx" and j: "1 \<le> j" "j \<le> length p" and s: "1 \<le> s"
    and compat: "\<And>t. j \<le> t \<Longrightarrow> t < length p \<Longrightarrow> s \<le> t \<Longrightarrow> p ! t = p ! (t - s)"
  shows "sfx ! j \<le> s"
proof -
  define m where "m = length p"
  from ok j have init: "sfx ! j \<le> m - longest_border p"
    by (simp add: suffix_ok_def m_def)
  consider "m \<le> s" | "j \<le> s" "s < m" | "s < j" by linarith
  then show ?thesis
  proof cases
    case 1
    with init show ?thesis by simp
  next
    case 2
    have "is_border p (m - s)"
      unfolding is_border_nth
    proof (intro conjI allI impI)
      show "m - s < length p" using 2 s by (simp add: m_def)
      fix t assume "t < m - s"
      then have "p ! (s + t) = p ! (s + t - s)"
        using 2 by (intro compat) (auto simp: m_def)
      moreover have "length p - (m - s) + t = s + t" using 2 by (simp add: m_def)
      ultimately show "p ! t = p ! (length p - (m - s) + t)" by simp
    qed
    from longest_border_max [OF this] init 2 show ?thesis by simp
  next
    case 3
    define b where "b = m - j"
    define r where "r = rev p"
    have rl: "length r = m" by (simp add: r_def m_def)
    have rn: "r ! u = p ! (m - 1 - u)" if "u < m" for u
      using that by (simp add: r_def m_def rev_nth)
    have bs: "b + s \<le> m" using 3 j by (simp add: b_def m_def)
    have top: "is_border (take (b + s) r) b"
    proof -
      have "r ! u = r ! (b + s - b + u)" if "u < b" for u
      proof -
        have "p ! (m - 1 - u) = p ! (m - 1 - u - s)"
          using that 3 j by (intro compat) (auto simp: b_def m_def)
        moreover have "m - 1 - u - s = m - 1 - (s + u)" by simp
        ultimately show ?thesis using that bs by (simp add: rn)
      qed
      then show ?thesis using bs s rl by (simp add: pborder_nth)
    qed
    define l where "l = (LEAST l. b < l \<and> l \<le> b + s \<and> is_border (take l r) b)"
    have "b < b + s \<and> b + s \<le> b + s \<and> is_border (take (b + s) r) b" using s top by simp
    then have l: "b < l \<and> l \<le> b + s \<and> is_border (take l r) b"
      unfolding l_def by (rule LeastI)
    have least: "l \<le> l'" if "b < l' \<and> l' \<le> b + s \<and> is_border (take l' r) b" for l'
      unfolding l_def using that by (rule Least_le)
    have ll: "l \<le> length r" using l bs rl by simp
    define c where "c = longest_border (take l r)"
    have tl: "take l r \<noteq> []" using l ll by auto
    have cb: "is_border (take l r) c" unfolding c_def by (rule longest_border_is [OF tl])
    then have c_lt: "c < l" using ll by (simp add: is_border_def)
    have "b \<le> c" using longest_border_max [of "take l r" b] l by (simp add: c_def)
    moreover have "\<not> b < c"
    proof
      assume bc: "b < c"
      from pborder_border [OF ll cb bc] l have "is_border (take c r) b" by simp
      with bc c_lt l have "b < c \<and> c \<le> b + s \<and> is_border (take c r) b" by simp
      from least [OF this] c_lt show False by simp
    qed
    ultimately have c: "c = b" by simp
    define x where "x = l - 1"
    have x: "x < length p" "Suc x = l" using l bs by (auto simp: x_def m_def)
    from ok x(1) have "sfx ! (length p - longest_border (take (Suc x) (rev p)))
        \<le> x + 1 - longest_border (take (Suc x) (rev p))"
      by (simp add: suffix_ok_def)
    then have "sfx ! (m - b) \<le> l - b" using x(2) c by (simp add: c_def r_def m_def)
    moreover have "m - b = j" using j by (simp add: b_def m_def)
    ultimately show ?thesis using l by auto
  qed
qed

lemma suffix_ok_pos: "suffix_ok p sfx \<Longrightarrow> j \<le> length p \<Longrightarrow> 1 \<le> sfx ! j"
  by (simp add: suffix_ok_def)

lemma suffix_ok_length: "suffix_ok p sfx \<Longrightarrow> length sfx = length p + 1"
  by (simp add: suffix_ok_def)

text \<open>What \<^verbatim>\<open>build_bm_tables\<close> leaves in the skip table.\<close>

lemma bm_skip_for_default:
  "k_default_value (bm_skip_for xs i t) = k_default_value t"
  by (induction xs arbitrary: i t) (simp_all add: skip_insert_def)

lemma bm_skip_for_absent:
  "c \<notin> set xs \<Longrightarrow> skip_map (bm_skip_for xs i t) c = skip_map t c"
  by (induction xs arbitrary: i t) (simp_all add: skip_insert_def)

lemma bm_skip_for_present:
  "c \<in> set xs \<Longrightarrow> i + length xs \<le> 2147483648 \<Longrightarrow>
   \<exists>k<length xs. skip_map (bm_skip_for xs i t) c = Some (int (i + k)) \<and> xs ! k = c \<and>
        (\<forall>u. k < u \<and> u < length xs \<longrightarrow> xs ! u \<noteq> c)"
proof (induction xs arbitrary: i t)
  case Nil
  then show ?case by simp
next
  case (Cons x xs)
  have ti: "to_int (int i) = int i" using Cons.prems(2) by (simp add: to_int_nat)
  show ?case
  proof (cases "c \<in> set xs")
    case True
    from Cons.IH [OF True, of "i + 1" "skip_insert x (int i) t"] Cons.prems(2)
    obtain k where k: "k < length xs"
      "skip_map (bm_skip_for xs (i + 1) (skip_insert x (int i) t)) c = Some (int (i + 1 + k))"
      "xs ! k = c" "\<forall>u. k < u \<and> u < length xs \<longrightarrow> xs ! u \<noteq> c"
      by auto
    have "\<forall>u. Suc k < u \<and> u < length (x # xs) \<longrightarrow> (x # xs) ! u \<noteq> c"
    proof (intro allI impI)
      fix u assume u: "Suc k < u \<and> u < length (x # xs)"
      then obtain u' where "u = Suc u'" by (cases u) auto
      with u k(4) show "(x # xs) ! u \<noteq> c" by simp
    qed
    with k ti show ?thesis by (intro exI [of _ "Suc k"]) simp
  next
    case False
    with Cons.prems have cx: "c = x" by simp
    have "\<forall>u. 0 < u \<and> u < length (x # xs) \<longrightarrow> (x # xs) ! u \<noteq> c"
    proof (intro allI impI)
      fix u assume u: "0 < u \<and> u < length (x # xs)"
      then obtain u' where "u = Suc u'" by (cases u) auto
      with u False show "(x # xs) ! u \<noteq> c" by (auto simp: in_set_conv_nth)
    qed
    with False cx ti show ?thesis
      by (intro exI [of _ 0]) (simp add: bm_skip_for_absent skip_insert_def)
  qed
qed

lemma bm_skip_lookup_absent: "c \<notin> set p \<Longrightarrow> skip_lookup (bm_skip_table p) c = - 1"
  by (simp add: bm_skip_table_def skip_lookup_def bm_skip_for_absent bm_skip_for_default
        skip_table_def)

lemma bm_skip_lookup_present:
  assumes "c \<in> set p" and "length p \<le> 2147483648"
  shows "\<exists>k<length p. skip_lookup (bm_skip_table p) c = int k \<and> p ! k = c \<and>
           (\<forall>u. k < u \<and> u < length p \<longrightarrow> p ! u \<noteq> c)"
  using bm_skip_for_present [OF assms(1), of 0 "skip_table (length p) (- 1)"] assms(2)
  by (auto simp: bm_skip_table_def skip_lookup_def)

text \<open>The bad-character rule: the pattern has no \<open>c\<close> to the right of \<open>skip_ [c]\<close>.\<close>

lemma bm_skip_rightmost:
  assumes "u < length p" and "skip_lookup (bm_skip_table p) c < int u"
    and b: "length p \<le> 2147483648"
  shows "p ! u \<noteq> c"
proof (cases "c \<in> set p")
  case False
  with assms(1) show ?thesis by (auto simp: in_set_conv_nth)
next
  case True
  from bm_skip_lookup_present [OF True b] assms(1,2) show ?thesis by auto
qed

lemma bm_while_result:
  assumes "j \<le> length p" and "1 \<le> j" and "s + length p \<le> length c"
    and "\<forall>t. j \<le> t \<and> t < length p \<longrightarrow> c ! (s + t) = p ! t"
  shows "(bm_while p (at c) s j = Inr Matched \<and> matches_at c p s) \<or>
         (\<exists>k. bm_while p (at c) s j = Inr (Mismatch k) \<and> 1 \<le> k \<and> k \<le> j \<and>
              (\<forall>t. k \<le> t \<and> t < length p \<longrightarrow> c ! (s + t) = p ! t) \<and>
              c ! (s + (k - 1)) \<noteq> p ! (k - 1))"
  using assms
proof (induction j)
  case 0
  then show ?case by simp
next
  case (Suc j)
  have rd: "at p j = Some (p ! j)" "at c (s + j) = Some (c ! (s + j))"
    using Suc.prems by (simp_all add: at_def)
  show ?case
  proof (cases "p ! j = c ! (s + j)")
    case False
    with rd Suc.prems show ?thesis by auto
  next
    case True
    have pre: "\<forall>t. j \<le> t \<and> t < length p \<longrightarrow> c ! (s + t) = p ! t"
    proof (intro allI impI)
      fix t assume t: "j \<le> t \<and> t < length p"
      show "c ! (s + t) = p ! t"
        using t True Suc.prems(4) by (cases "t = j") auto
    qed
    show ?thesis
    proof (cases "j = 0")
      case True
      with pre Suc.prems(3) have "matches_at c p s" by (simp add: matches_at_nth)
      with True \<open>p ! j = c ! (s + j)\<close> rd show ?thesis by simp
    next
      case False
      with Suc.IH [OF _ _ Suc.prems(3) pre] Suc.prems(1)
      have "(bm_while p (at c) s j = Inr Matched \<and> matches_at c p s) \<or>
         (\<exists>k. bm_while p (at c) s j = Inr (Mismatch k) \<and> 1 \<le> k \<and> k \<le> j \<and>
              (\<forall>t. k \<le> t \<and> t < length p \<longrightarrow> c ! (s + t) = p ! t) \<and>
              c ! (s + (k - 1)) \<noteq> p ! (k - 1))"
        by simp
      moreover have "bm_while p (at c) s (Suc j) = bm_while p (at c) s j"
        using False True rd by simp
      ultimately show ?thesis by (auto simp: le_Suc_eq)
    qed
  qed
qed

lemma bm_skip_lookup_ge:
  assumes b: "length p \<le> 2147483648"
  shows "- 1 \<le> skip_lookup (bm_skip_table p) c"
    and "skip_lookup (bm_skip_table p) c < int (length p)"
proof -
  have "- 1 \<le> skip_lookup (bm_skip_table p) c \<and> skip_lookup (bm_skip_table p) c < int (length p)"
  proof (cases "c \<in> set p")
    case True
    from bm_skip_lookup_present [OF True b] show ?thesis by auto
  next
    case False
    then show ?thesis by (simp add: bm_skip_lookup_absent)
  qed
  then show "- 1 \<le> skip_lookup (bm_skip_table p) c"
    and "skip_lookup (bm_skip_table p) c < int (length p)" by simp_all
qed

text \<open>After a mismatch at pattern index \<open>k - 1\<close>, an occurrence \<open>e\<close> places further right
  respects both rules.\<close>

lemma bm_shift_safe:
  assumes ok: "suffix_ok p sfx" and k: "1 \<le> k" "k \<le> length p"
    and suf: "\<forall>t. k \<le> t \<and> t < length p \<longrightarrow> c ! (s + t) = p ! t"
    and e: "1 \<le> e" and occ: "matches_at c p (s + e)"
    and b: "length p \<le> 2147483648"
  shows "sfx ! k \<le> e"
    and "int k - skip_lookup (bm_skip_table p) (c ! (s + (k - 1))) - 1 \<le> int e"
proof -
  from occ have all: "\<And>t. t < length p \<Longrightarrow> c ! (s + e + t) = p ! t"
    by (simp add: matches_at_nth)
  show "sfx ! k \<le> e"
  proof (rule suffix_safe [OF ok k e])
    fix t assume t: "k \<le> t" "t < length p" "e \<le> t"
    have "c ! (s + t) = p ! t" using suf t by simp
    moreover have "c ! (s + e + (t - e)) = p ! (t - e)" using t by (intro all) simp
    moreover have "s + e + (t - e) = s + t" using t by simp
    ultimately show "p ! t = p ! (t - e)" by simp
  qed
  show "int k - skip_lookup (bm_skip_table p) (c ! (s + (k - 1))) - 1 \<le> int e"
  proof (cases "e \<le> k - 1")
    case False
    then show ?thesis using bm_skip_lookup_ge(1) [OF b, of "c ! (s + (k - 1))"] by linarith
  next
    case True
    define u where "u = k - 1 - e"
    have u: "u < length p" "s + e + u = s + (k - 1)" using True k by (simp_all add: u_def)
    from all [OF u(1)] u(2) have "p ! u = c ! (s + (k - 1))" by simp
    with bm_skip_rightmost [OF u(1) _ b, of "c ! (s + (k - 1))"]
    have "\<not> skip_lookup (bm_skip_table p) (c ! (s + (k - 1))) < int u" by auto
    then show ?thesis using True k by (simp add: u_def)
  qed
qed

lemma bm_loop_result:
  assumes m: "0 < length p" "length p \<le> length c" and ok: "suffix_ok p sfx"
    and "\<forall>q. q < s \<longrightarrow> \<not> matches_at c p q"
    and b: "length p < 2147483648"
  shows "bm_loop p (bm_skip_table p) sfx (at c) (length c) (length c - length p) s
         = Some (Inr (naive_search c p))"
  using assms(4)
proof (induction "Suc (length c) - s" arbitrary: s rule: less_induct)
  case less
  show ?case
  proof (cases "s \<le> length c - length p")
    case False
    have "\<not> matches_at c p q" for q
      using less.prems False by (cases "q < s") (auto simp: matches_at_def)
    then have "naive_search c p = length c" by (rule naive_search_none)
    with False show ?thesis by (subst bm_loop.simps) (simp add: bm_body_def)
  next
    case True
    then have fit: "s + length p \<le> length c" using m by simp
    have "(bm_while p (at c) s (length p) = Inr Matched \<and> matches_at c p s) \<or>
         (\<exists>k. bm_while p (at c) s (length p) = Inr (Mismatch k) \<and> 1 \<le> k \<and> k \<le> length p \<and>
              (\<forall>t. k \<le> t \<and> t < length p \<longrightarrow> c ! (s + t) = p ! t) \<and>
              c ! (s + (k - 1)) \<noteq> p ! (k - 1))"
      by (rule bm_while_result) (use m fit in \<open>auto simp: Suc_le_eq\<close>)
    then show ?thesis
    proof (elim disjE conjE exE)
      assume "bm_while p (at c) s (length p) = Inr Matched" "matches_at c p s"
      moreover from this less.prems have "naive_search c p = s"
        by (intro naive_search_found) auto
      ultimately show ?thesis using True by (subst bm_loop.simps) (simp add: bm_body_def)
    next
      fix k
      assume w: "bm_while p (at c) s (length p) = Inr (Mismatch k)"
        and k: "1 \<le> k" "k \<le> length p"
        and suf: "\<forall>t. k \<le> t \<and> t < length p \<longrightarrow> c ! (s + t) = p ! t"
        and neq: "c ! (s + (k - 1)) \<noteq> p ! (k - 1)"
      define ch where "ch = c ! (s + (k - 1))"
      define bc where "bc = skip_lookup (bm_skip_table p) ch"
      define mm where "mm = int k - bc - 1"
      define d where "d = (if bc < int k \<and> int (sfx ! k) < mm then nat mm else sfx ! k)"
      have rd: "usub k 1 = Some (k - 1)" "at c (s + (k - 1)) = Some ch"
        "at sfx k = Some (sfx ! k)"
        using k fit suffix_ok_length [OF ok] by (simp_all add: usub_def at_def ch_def)
      have nomatch_s: "\<not> matches_at c p s"
      proof
        assume "matches_at c p s"
        then have "\<forall>t<length p. c ! (s + t) = p ! t" by (simp add: matches_at_nth)
        moreover have "k - 1 < length p" using k by simp
        ultimately have "c ! (s + (k - 1)) = p ! (k - 1)" by blast
        with neq show False by simp
      qed
      have dpos: "1 \<le> d" using suffix_ok_pos [OF ok k(2)] by (auto simp: d_def)
      have bcr: "- 1 \<le> bc" "bc < int (length p)"
        using bm_skip_lookup_ge [of p ch] b by (simp_all add: bc_def)
      have sk: "sfx ! k \<le> length p"
      proof -
        from ok k(2) have "sfx ! k \<le> length p - longest_border p"
          unfolding suffix_ok_def by blast
        then show ?thesis by simp
      qed
      have ints: "to_int (int k - bc - 1) = mm" "to_int (int k) = int k"
        "to_int (int (sfx ! k)) = int (sfx ! k)"
        using bcr sk k b by (simp_all add: to_int_id mm_def)
      have fwd: "nat (int s + mm) = s + nat mm" "\<not> int s + mm < 0" if "int (sfx ! k) < mm"
        using that by simp_all
      have safe: "\<not> matches_at c p (s + e)" if e: "1 \<le> e" "e < d" for e
      proof
        assume occ: "matches_at c p (s + e)"
        from bm_shift_safe [OF ok k suf e(1) occ] b
        have "sfx ! k \<le> e" "mm \<le> int e" by (simp_all add: mm_def bc_def ch_def)
        with e(2) show False by (auto simp: d_def split: if_splits)
      qed
      have "bm_loop p (bm_skip_table p) sfx (at c) (length c) (length c - length p) (s + d)
            = Some (Inr (naive_search c p))"
      proof (rule less.hyps)
        show "Suc (length c) - (s + d) < Suc (length c) - s" using fit dpos by simp
        show "\<forall>q. q < s + d \<longrightarrow> \<not> matches_at c p q"
        proof (intro allI impI)
          fix q assume q: "q < s + d"
          consider "q < s" | "q = s" | "s < q" by linarith
          then show "\<not> matches_at c p q"
          proof cases
            case 1 with less.prems show ?thesis by simp
          next
            case 2 with nomatch_s show ?thesis by simp
          next
            case 3
            with q safe [of "q - s"] show ?thesis by simp
          qed
        qed
      qed
      moreover have "bm_loop p (bm_skip_table p) sfx (at c) (length c) (length c - length p) s
            = bm_loop p (bm_skip_table p) sfx (at c) (length c) (length c - length p) (s + d)"
        using True w rd ints fwd
        by (subst bm_loop.simps) (simp add: bm_body_def d_def bc_def Let_def)
      ultimately show ?thesis by simp
    qed
  qed
qed

lemma boyer_moore_result:
  "\<exists>sfx. boyer_moore p = Some (Inr \<lparr>bm_pat = p, bm_skip = bm_skip_table p, bm_suffix = sfx\<rparr>)
     \<and> (p \<noteq> [] \<longrightarrow> suffix_ok p sfx)"
proof (cases "p = []")
  case True
  then show ?thesis
    by (simp add: boyer_moore_def build_bm_tables_def create_suffix_table_def bm_skip_table_def)
next
  case False
  from create_suffix_table_result [OF False] obtain sfx where
    "create_suffix_table p (replicate (length p + 1) 0) = Some (Inr sfx)" "suffix_ok p sfx"
    by blast
  then show ?thesis
    by (simp add: boyer_moore_def build_bm_tables_def bm_skip_table_def del: replicate.simps)
qed

lemma naive_search_trivial:
  "length c = 0 \<Longrightarrow> naive_search c p = 0"
  "length c \<noteq> 0 \<Longrightarrow> p = [] \<Longrightarrow> naive_search c p = 0"
  "length c < length p \<Longrightarrow> naive_search c p = length c"
proof -
  show "naive_search c p = 0" if "length c = 0"
  proof (cases "p = []")
    case True then show ?thesis using that by (intro naive_search_found) (auto simp: matches_at_def)
  next
    case False then show ?thesis using that naive_search_none [of c p] by (auto simp: matches_at_def)
  qed
  show "naive_search c p = 0" if "length c \<noteq> 0" "p = []"
    using that by (intro naive_search_found) (auto simp: matches_at_def)
  show "naive_search c p = length c" if "length c < length p"
    using that by (intro naive_search_none) (auto simp: matches_at_def)
qed

lemma bm_search_naive:
  assumes bound: "length p < 2147483648"
  shows "boyer_moore_search c p = Some (Inr (naive_search c p))"
proof -
  from boyer_moore_result [of p] obtain sfx where
    b: "boyer_moore p = Some (Inr \<lparr>bm_pat = p, bm_skip = bm_skip_table p, bm_suffix = sfx\<rparr>)"
    and ok: "p \<noteq> [] \<longrightarrow> suffix_ok p sfx" by blast
  consider "length c = 0" | "length c \<noteq> 0" "p = []" | "length c \<noteq> 0" "p \<noteq> []" "length c < length p"
    | "p \<noteq> []" "length p \<le> length c" by linarith
  then show ?thesis
  proof cases
    case 1
    with naive_search_trivial(1) [of c p] b show ?thesis
      by (simp add: boyer_moore_search_def bm_call_def)
  next
    case 2
    with naive_search_trivial(2) [of c p] b show ?thesis
      by (simp add: boyer_moore_search_def bm_call_def)
  next
    case 3
    with naive_search_trivial(3) [of c p] b show ?thesis
      by (simp add: boyer_moore_search_def bm_call_def)
  next
    case 4
    with ok bound have "bm_loop p (bm_skip_table p) sfx (at c) (length c) (length c - length p) 0
          = Some (Inr (naive_search c p))"
      by (intro bm_loop_result) auto
    with 4 b show ?thesis
      by (auto simp: boyer_moore_search_def bm_call_def bm_do_search_def usub_def)
  qed
qed

section \<open>boyer_moore_horspool\<close>

lemma bmh_skip_for_default:
  "k_default_value (bmh_skip_for xs m i t) = k_default_value t"
  by (induction xs arbitrary: i t) (simp_all add: skip_insert_def)

lemma bmh_skip_for_absent:
  "c \<notin> set xs \<Longrightarrow> skip_map (bmh_skip_for xs m i t) c = skip_map t c"
  by (induction xs arbitrary: i t) (simp_all add: skip_insert_def)

lemma bmh_skip_for_present:
  "c \<in> set xs \<Longrightarrow> m \<le> 2147483648 \<Longrightarrow>
   \<exists>k<length xs. skip_map (bmh_skip_for xs m i t) c = Some (int (m - 1 - (i + k))) \<and>
        xs ! k = c \<and> (\<forall>u. k < u \<and> u < length xs \<longrightarrow> xs ! u \<noteq> c)"
proof (induction xs arbitrary: i t)
  case Nil
  then show ?case by simp
next
  case (Cons x xs)
  have ti: "to_int (int (m - 1 - i)) = int (m - 1 - i)"
    using Cons.prems(2) by (simp add: to_int_nat)
  show ?case
  proof (cases "c \<in> set xs")
    case True
    from Cons.IH [OF True Cons.prems(2), of "i + 1" "skip_insert x (int (m - 1 - i)) t"]
    obtain k where k: "k < length xs"
      "skip_map (bmh_skip_for xs m (i + 1) (skip_insert x (int (m - 1 - i)) t)) c
         = Some (int (m - 1 - (i + 1 + k)))"
      "xs ! k = c" "\<forall>u. k < u \<and> u < length xs \<longrightarrow> xs ! u \<noteq> c"
      by blast
    have "\<forall>u. Suc k < u \<and> u < length (x # xs) \<longrightarrow> (x # xs) ! u \<noteq> c"
    proof (intro allI impI)
      fix u assume u: "Suc k < u \<and> u < length (x # xs)"
      then obtain u' where "u = Suc u'" by (cases u) auto
      with u k(4) show "(x # xs) ! u \<noteq> c" by simp
    qed
    with k ti show ?thesis by (intro exI [of _ "Suc k"]) simp
  next
    case False
    with Cons.prems have cx: "c = x" by simp
    have "\<forall>u. 0 < u \<and> u < length (x # xs) \<longrightarrow> (x # xs) ! u \<noteq> c"
    proof (intro allI impI)
      fix u assume u: "0 < u \<and> u < length (x # xs)"
      then obtain u' where "u = Suc u'" by (cases u) auto
      with u False show "(x # xs) ! u \<noteq> c" by (auto simp: in_set_conv_nth)
    qed
    with False cx ti show ?thesis
      by (intro exI [of _ 0]) (simp add: bmh_skip_for_absent skip_insert_def)
  qed
qed

lemma bmh_skip_lookup_default:
  "c \<notin> set (butlast p) \<Longrightarrow> skip_lookup (bmh_skip_table p) c = to_int (int (length p))"
  by (simp add: bmh_skip_table_def boyer_moore_horspool_def skip_lookup_def
        bmh_skip_for_absent bmh_skip_for_default skip_table_def)

lemma bmh_skip_lookup_absent:
  "c \<notin> set (butlast p) \<Longrightarrow> length p < 2147483648 \<Longrightarrow>
   skip_lookup (bmh_skip_table p) c = int (length p)"
  by (simp add: bmh_skip_lookup_default to_int_nat)

lemma bmh_skip_lookup_present:
  assumes "c \<in> set (butlast p)" and bound: "length p < 2147483648"
  shows "\<exists>k<length p - 1. skip_lookup (bmh_skip_table p) c = int (length p - 1 - k) \<and>
           p ! k = c \<and> (\<forall>u. k < u \<and> u < length p - 1 \<longrightarrow> p ! u \<noteq> c)"
proof -
  have ne: "p \<noteq> []" using assms by auto
  have "length p \<le> 2147483648" using bound by simp
  from bmh_skip_for_present [OF assms(1) this, of 0 "skip_table (length p) (int (length p))"]
  obtain k where k: "k < length (butlast p)"
    "skip_map (bmh_skip_for (butlast p) (length p) 0 (skip_table (length p) (int (length p)))) c
       = Some (int (length p - 1 - (0 + k)))"
    "butlast p ! k = c" "\<forall>u. k < u \<and> u < length (butlast p) \<longrightarrow> butlast p ! u \<noteq> c"
    by blast
  have "\<forall>u. k < u \<and> u < length p - 1 \<longrightarrow> p ! u \<noteq> c"
    using k(4) by (simp add: nth_butlast)
  moreover have "p ! k = c" using k(1,3) by (simp add: nth_butlast)
  moreover have "skip_lookup (bmh_skip_table p) c = int (length p - 1 - k)"
    using k(2) ne bound
    by (simp add: bmh_skip_table_def boyer_moore_horspool_def skip_lookup_def to_int_nat)
  ultimately show ?thesis using k(1) by auto
qed

lemma bmh_skip_lookup_bounds:
  assumes "p \<noteq> []" and bound: "length p < 2147483648"
  shows "1 \<le> skip_lookup (bmh_skip_table p) c"
    and "skip_lookup (bmh_skip_table p) c \<le> int (length p)"
proof -
  have "1 \<le> skip_lookup (bmh_skip_table p) c \<and> skip_lookup (bmh_skip_table p) c \<le> int (length p)"
  proof (cases "c \<in> set (butlast p)")
    case False
    with assms show ?thesis by (cases p) (simp_all add: bmh_skip_lookup_absent)
  next
    case True
    from bmh_skip_lookup_present [OF True bound] show ?thesis by auto
  qed
  then show "1 \<le> skip_lookup (bmh_skip_table p) c"
    and "skip_lookup (bmh_skip_table p) c \<le> int (length p)" by simp_all
qed

text \<open>No symbol \<open>c\<close> sits in the pattern closer to its end than \<open>skip_ [c]\<close>, the last
  position apart.\<close>

lemma bmh_skip_rightmost:
  assumes "u < length p - 1" and "int (length p - 1 - u) < skip_lookup (bmh_skip_table p) c"
    and bound: "length p < 2147483648"
  shows "p ! u \<noteq> c"
proof (cases "c \<in> set (butlast p)")
  case False
  have "p ! u = butlast p ! u" using assms(1) by (simp add: nth_butlast)
  moreover have "butlast p ! u \<in> set (butlast p)" using assms(1) by simp
  ultimately show ?thesis using False by auto
next
  case True
  from bmh_skip_lookup_present [OF True bound] obtain k where
    k: "k < length p - 1" "skip_lookup (bmh_skip_table p) c = int (length p - 1 - k)"
       "\<forall>u. k < u \<and> u < length p - 1 \<longrightarrow> p ! u \<noteq> c" by blast
  from assms(2) k(1,2) assms(1) have "k < u" by simp
  with k(3) assms(1) show ?thesis by simp
qed

lemma bmh_while_result:
  assumes "j < length p" and "s + length p \<le> length c"
    and "\<forall>t. j < t \<and> t < length p \<longrightarrow> c ! (s + t) = p ! t"
  shows "(bmh_while p (at c) s j = Inr Matched \<and> matches_at c p s) \<or>
         (\<exists>k. bmh_while p (at c) s j = Inr (Mismatch k) \<and> \<not> matches_at c p s)"
  using assms
proof (induction j)
  case 0
  have rd: "at p 0 = Some (p ! 0)" "at c (s + 0) = Some (c ! s)"
    using 0 by (simp_all add: at_def del: length_greater_0_conv)
  show ?case
  proof (cases "p ! 0 = c ! s")
    case True
    have "c ! (s + t) = p ! t" if "t < length p" for t
      using that True 0(3) by (cases "t = 0") auto
    with 0(2) have "matches_at c p s" by (simp add: matches_at_nth)
    with True rd show ?thesis by (subst bmh_while.simps) simp
  next
    case False
    with 0(1) have "\<not> matches_at c p s" by (auto simp: matches_at_nth)
    with False rd show ?thesis by (subst bmh_while.simps) simp
  qed
next
  case (Suc j)
  have rd: "at p (Suc j) = Some (p ! Suc j)" "at c (s + Suc j) = Some (c ! (s + Suc j))"
    using Suc.prems by (simp_all add: at_def)
  show ?case
  proof (cases "p ! Suc j = c ! (s + Suc j)")
    case True
    have pre: "\<forall>t. j < t \<and> t < length p \<longrightarrow> c ! (s + t) = p ! t"
    proof (intro allI impI)
      fix t assume "j < t \<and> t < length p"
      then show "c ! (s + t) = p ! t"
        using True Suc.prems(3) by (cases "t = Suc j") auto
    qed
    have "bmh_while p (at c) s (Suc j) = bmh_while p (at c) s j"
      using True rd by (subst bmh_while.simps) simp
    with Suc.IH [OF _ Suc.prems(2) pre] Suc.prems(1) show ?thesis by simp
  next
    case False
    with Suc.prems(1) have "\<not> matches_at c p s" by (auto simp: matches_at_nth)
    with False rd show ?thesis by (subst bmh_while.simps) simp
  qed
qed

lemma bmh_loop_result:
  assumes m: "0 < length p" "length p \<le> length c"
    and "\<forall>q. q < s \<longrightarrow> \<not> matches_at c p q"
    and bound: "length p < 2147483648"
  shows "bmh_loop p (bmh_skip_table p) (at c) (length c) (length c - length p) s
         = Some (Inr (naive_search c p))"
  using assms(3)
proof (induction "Suc (length c) - s" arbitrary: s rule: less_induct)
  case less
  have ne: "p \<noteq> []" using m by auto
  show ?case
  proof (cases "s \<le> length c - length p")
    case False
    have "\<not> matches_at c p q" for q
      using less.prems False by (cases "q < s") (auto simp: matches_at_def)
    then have "naive_search c p = length c" by (rule naive_search_none)
    with False show ?thesis by (subst bmh_loop.simps) (simp add: bmh_body_def)
  next
    case True
    then have fit: "s + length p \<le> length c" using m by simp
    define j where "j = length p - 1"
    have rdj: "usub (length p) 1 = Some j" using m by (simp add: usub_def j_def Suc_le_eq)
    have "(bmh_while p (at c) s j = Inr Matched \<and> matches_at c p s) \<or>
         (\<exists>k. bmh_while p (at c) s j = Inr (Mismatch k) \<and> \<not> matches_at c p s)"
      by (rule bmh_while_result) (use m fit in \<open>auto simp: j_def\<close>)
    then show ?thesis
    proof (elim disjE conjE exE)
      assume "bmh_while p (at c) s j = Inr Matched" "matches_at c p s"
      moreover from this less.prems have "naive_search c p = s"
        by (intro naive_search_found) auto
      ultimately show ?thesis using True rdj by (subst bmh_loop.simps) (simp add: bmh_body_def)
    next
      fix k
      assume w: "bmh_while p (at c) s j = Inr (Mismatch k)" and nomatch_s: "\<not> matches_at c p s"
      define ch where "ch = c ! (s + j)"
      define d where "d = skip_lookup (bmh_skip_table p) ch"
      have rd: "at c (s + j) = Some ch"
        using m fit by (simp add: at_def ch_def j_def del: length_greater_0_conv)
      have d: "1 \<le> d" "d \<le> int (length p)"
        using bmh_skip_lookup_bounds [OF ne bound, of ch] by (simp_all add: d_def)
      have safe: "\<not> matches_at c p (s + e)" if e: "1 \<le> e" "int e < d" for e
      proof
        assume occ: "matches_at c p (s + e)"
        define u where "u = length p - 1 - e"
        have u: "u < length p - 1" "s + e + u = s + j" "int (length p - 1 - u) = int e"
          using e d m by (auto simp: u_def j_def)
        from occ have "\<forall>t<length p. c ! (s + e + t) = p ! t" by (simp add: matches_at_nth)
        moreover have "u < length p" using u(1) by simp
        ultimately have "c ! (s + e + u) = p ! u" by blast
        then have "p ! u = ch" unfolding u(2) by (simp add: ch_def)
        moreover have "p ! u \<noteq> ch"
          by (rule bmh_skip_rightmost [OF u(1) _ bound]) (use u(3) e(2) in \<open>simp add: d_def\<close>)
        ultimately show False by simp
      qed
      have "bmh_loop p (bmh_skip_table p) (at c) (length c) (length c - length p) (s + nat d)
            = Some (Inr (naive_search c p))"
      proof (rule less.hyps)
        show "Suc (length c) - (s + nat d) < Suc (length c) - s" using fit d by simp
        show "\<forall>q. q < s + nat d \<longrightarrow> \<not> matches_at c p q"
        proof (intro allI impI)
          fix q assume q: "q < s + nat d"
          consider "q < s" | "q = s" | "s < q" by linarith
          then show "\<not> matches_at c p q"
          proof cases
            case 1 with less.prems show ?thesis by simp
          next
            case 2 with nomatch_s show ?thesis by simp
          next
            case 3
            with q safe [of "q - s"] show ?thesis by simp
          qed
        qed
      qed
      moreover have "nat (int s + d) = s + nat d" using d by simp
      moreover have "\<not> int s + d < 0" using d by simp
      ultimately show ?thesis
        using True rdj w rd by (subst bmh_loop.simps) (simp add: bmh_body_def d_def)
    qed
  qed
qed

lemma bmh_search_naive:
  assumes bound: "length p < 2147483648"
  shows "boyer_moore_horspool_search c p = Some (Inr (naive_search c p))"
proof -
  have b: "bmh_pat (boyer_moore_horspool p) = p" by (simp add: boyer_moore_horspool_def)
  consider "length c = 0" | "length c \<noteq> 0" "p = []" | "length c \<noteq> 0" "p \<noteq> []" "length c < length p"
    | "p \<noteq> []" "length p \<le> length c" by linarith
  then show ?thesis
  proof cases
    case 1
    with naive_search_trivial(1) [of c p] b show ?thesis
      by (simp add: boyer_moore_horspool_search_def bmh_call_def)
  next
    case 2
    with naive_search_trivial(2) [of c p] b show ?thesis
      by (simp add: boyer_moore_horspool_search_def bmh_call_def)
  next
    case 3
    with naive_search_trivial(3) [of c p] b show ?thesis
      by (simp add: boyer_moore_horspool_search_def bmh_call_def)
  next
    case 4
    with bound have "bmh_loop p (bmh_skip_table p) (at c) (length c) (length c - length p) 0
          = Some (Inr (naive_search c p))"
      by (intro bmh_loop_result) auto
    with 4 b show ?thesis
      by (auto simp: boyer_moore_horspool_search_def bmh_call_def bmh_do_search_def usub_def
            bmh_skip_table_def)
  qed
qed

section \<open>Every round moves the alignment forward\<close>

text \<open>Every round that does not return moves the alignment forward.\<close>

lemma bm_while_Mismatch:
  "bm_while p corpus s j = Inr (Mismatch k) \<Longrightarrow> 1 \<le> k \<and> k \<le> j"
proof (induction j)
  case 0
  then show ?case by simp
next
  case (Suc j)
  then show ?case
    by (auto split: option.splits if_splits)
qed


text \<open>A round of \<^verbatim>\<open>boyer_moore\<close> whose comparison fails, for a pattern of fewer than
  \<open>2^31\<close> symbols: no conversion to \<^verbatim>\<open>int\<close> changes a value.\<close>

lemma bm_body_mismatch:
  assumes ok: "suffix_ok p sfx" and bound: "length p < 2147483648"
    and w: "bm_while p rd s (length p) = Inr (Mismatch j)"
    and c: "rd (s + (j - 1)) = Some ch"
  shows "bm_body p (bm_skip_table p) sfx rd s =
     Inr (Continue
       (if skip_lookup (bm_skip_table p) ch < int j \<and>
           int (sfx ! j) < int j - skip_lookup (bm_skip_table p) ch - 1
        then s + nat (int j - skip_lookup (bm_skip_table p) ch - 1)
        else s + sfx ! j))"
proof -
  define bc where "bc = skip_lookup (bm_skip_table p) ch"
  from bm_while_Mismatch [OF w] have j: "1 \<le> j" "j \<le> length p" by simp_all
  have bcr: "- 1 \<le> bc" "bc < int (length p)"
    using bm_skip_lookup_ge [of p ch] bound by (simp_all add: bc_def)
  from ok j(2) have "sfx ! j \<le> length p - longest_border p"
    unfolding suffix_ok_def by blast
  then have sk: "sfx ! j \<le> length p" by simp
  have ints: "to_int (int j - bc - 1) = int j - bc - 1" "to_int (int j) = int j"
    "to_int (int (sfx ! j)) = int (sfx ! j)"
    using bcr sk j bound by (simp_all add: to_int_id)
  have rd: "usub j 1 = Some (j - 1)" "at sfx j = Some (sfx ! j)"
    using j suffix_ok_length [OF ok] by (simp_all add: usub_def at_def)
  have fwd: "nat (int s + (int j - bc - 1)) = s + nat (int j - bc - 1)"
    "\<not> int s + (int j - bc - 1) < 0" if "int (sfx ! j) < int j - bc - 1"
    using that by simp_all
  show ?thesis
    unfolding bc_def [symmetric]
    using w c rd ints fwd by (simp add: bm_body_def Let_def bc_def [symmetric])
qed

text \<open>The comparison of \<^verbatim>\<open>boyer_moore\<close> ends at the first disagreement from the right.\<close>

lemma bm_while_mismatch_at:
  assumes j: "1 \<le> j" "j \<le> length p" and fit: "s + length p \<le> length c"
    and suf: "\<forall>t. j \<le> t \<and> t < length p \<longrightarrow> c ! (s + t) = p ! t"
    and neq: "c ! (s + (j - 1)) \<noteq> p ! (j - 1)"
  shows "bm_while p (at c) s (length p) = Inr (Mismatch j)"
proof -
  have "(bm_while p (at c) s (length p) = Inr Matched \<and> matches_at c p s) \<or>
         (\<exists>k. bm_while p (at c) s (length p) = Inr (Mismatch k) \<and> 1 \<le> k \<and> k \<le> length p \<and>
              (\<forall>t. k \<le> t \<and> t < length p \<longrightarrow> c ! (s + t) = p ! t) \<and>
              c ! (s + (k - 1)) \<noteq> p ! (k - 1))"
    by (rule bm_while_result) (use j fit in auto)
  moreover have "\<not> matches_at c p s"
  proof
    assume "matches_at c p s"
    then have "\<forall>t<length p. c ! (s + t) = p ! t" by (simp add: matches_at_nth)
    moreover have "j - 1 < length p" using j by simp
    ultimately have "c ! (s + (j - 1)) = p ! (j - 1)" by blast
    with neq show False by simp
  qed
  ultimately obtain k where w: "bm_while p (at c) s (length p) = Inr (Mismatch k)"
    and k: "1 \<le> k" "k \<le> length p"
    and sufk: "\<forall>t. k \<le> t \<and> t < length p \<longrightarrow> c ! (s + t) = p ! t"
    and neqk: "c ! (s + (k - 1)) \<noteq> p ! (k - 1)"
    by blast
  have "k = j"
  proof (rule ccontr)
    assume "k \<noteq> j"
    then consider "k < j" | "j < k" by linarith
    then show False
    proof cases
      case 1
      then have "k \<le> j - 1 \<and> j - 1 < length p" using j by linarith
      with sufk have "c ! (s + (j - 1)) = p ! (j - 1)" by blast
      with neq show False by simp
    next
      case 2
      then have "j \<le> k - 1 \<and> k - 1 < length p" using k by linarith
      with suf have "c ! (s + (k - 1)) = p ! (k - 1)" by blast
      with neqk show False by simp
    qed
  qed
  with w show ?thesis by simp
qed





section \<open>The two skip tables\<close>
lemma same_lookups_new: "same_lookups (skip_array n d) (skip_table n d)"
proof -
  have "unat c < 256" for c :: "8 word"
    using unsigned_less [of c, where ?'a = nat] by simp
  then show ?thesis
    by (simp add: same_lookups_def skip_array_def skip_table_def array_lookup_def
        skip_lookup_def)
qed

lemma same_lookups_insert:
  assumes "same_lookups a t"
  shows "same_lookups (array_insert key val a) (skip_insert key val t)"
proof -
  have lt: "unat c < 256" for c :: "8 word"
    using unsigned_less [of c, where ?'a = nat] by simp
  have "array_lookup (array_insert key val a) c = skip_lookup (skip_insert key val t) c" for c
  proof (cases "c = key")
    case True
    then show ?thesis
      using assms lt [of key]
      by (simp add: same_lookups_def array_lookup_def array_insert_def skip_lookup_def
          skip_insert_def)
  next
    case False
    then have "unat key \<noteq> unat c" by (simp add: word_unat_eq_iff)
    with False show ?thesis
      using assms
      by (simp add: same_lookups_def array_lookup_def array_insert_def skip_lookup_def
          skip_insert_def split: option.splits)
  qed
  then show ?thesis using assms by (simp add: same_lookups_def array_insert_def)
qed

lemma same_lookups_inserts:
  "same_lookups a t \<Longrightarrow> same_lookups (array_inserts calls a) (map_inserts calls t)"
proof (induction calls arbitrary: a t)
  case Nil
  then show ?case by simp
next
  case (Cons call calls)
  obtain key val where "call = (key, val)" by (cases call)
  with Cons show ?case by (simp add: same_lookups_insert)
qed

text \<open>The constructors' loops are such sequences of calls, so for a pattern of bytes the
  array that \<^verbatim>\<open>BM_traits\<close> selects answers every lookup as the map of the model does.\<close>

lemma bm_skip_for_inserts:
  "bm_skip_for xs i t
   = map_inserts (zip xs (map (\<lambda>j. to_int (int j)) [i..<i + length xs])) t"
proof (induction xs arbitrary: i t)
  case Nil
  then show ?case by simp
next
  case (Cons x xs)
  have "[i..<i + length (x # xs)] = i # [i + 1..<i + 1 + length xs]"
    by (subst upt_rec) simp
  with Cons [of "i + 1"] show ?case by simp
qed

lemma bmh_skip_for_inserts:
  "bmh_skip_for xs m i t
   = map_inserts (zip xs (map (\<lambda>j. to_int (int (m - 1 - j))) [i..<i + length xs])) t"
proof (induction xs arbitrary: i t)
  case Nil
  then show ?case by simp
next
  case (Cons x xs)
  have "[i..<i + length (x # xs)] = i # [i + 1..<i + 1 + length xs]"
    by (subst upt_rec) simp
  with Cons [of "i + 1"] show ?case by simp
qed

lemma array_lookup_inserts:
  "array_lookup (array_inserts calls (skip_array n d)) c
   = skip_lookup (map_inserts calls (skip_table n d)) c"
  using same_lookups_inserts [OF same_lookups_new, of calls n d]
  by (simp add: same_lookups_def)

lemma bm_skip_array:
  "array_lookup
     (array_inserts (zip p (map (\<lambda>j. to_int (int j)) [0..<length p]))
        (skip_array (length p) (- 1))) c
   = skip_lookup (bm_skip_table p) c"
  using bm_skip_for_inserts [of p 0] by (simp add: array_lookup_inserts bm_skip_table_def)

lemma bmh_skip_array:
  assumes "p \<noteq> []"
  shows "array_lookup
           (array_inserts
              (zip (butlast p) (map (\<lambda>j. to_int (int (length p - 1 - j))) [0..<length p - 1]))
              (skip_array (length p) (to_int (int (length p))))) c
         = skip_lookup (bmh_skip_table p) c"
  using bmh_skip_for_inserts [of "butlast p" "length p" 0] assms
  by (simp add: array_lookup_inserts bmh_skip_table_def boyer_moore_horspool_def)





section \<open>unhex\<close>
lemma hex_char_to_int_cases:
  "(is_hex_digit c \<and> (\<exists>d<16. hex_char_to_int c = Inr d)) \<or>
   (\<not> is_hex_digit c \<and> hex_char_to_int c = Inl non_hex_input)"
proof -
  define n :: nat where "n = of_char c"
  have le: "\<And>d. c \<le> d \<longleftrightarrow> n \<le> of_char d" "\<And>d. d \<le> c \<longleftrightarrow> (of_char d :: nat) \<le> n"
    by (simp_all add: less_eq_char_def n_def)
  have eq: "\<And>d. c = d \<longleftrightarrow> n = of_char d"
    by (auto simp: n_def)
  have h: "hex_char_to_int c =
     (if 48 \<le> n \<and> n \<le> 57 then Inr (n - 48)
      else if 65 \<le> n \<and> n \<le> 70 then Inr (n - 65 + 10)
      else if 97 \<le> n \<and> n \<le> 102 then Inr (n - 97 + 10)
      else Inl non_hex_input)"
    unfolding hex_char_to_int_def le by (simp add: n_def)
  have d: "is_hex_digit c \<longleftrightarrow> (48 \<le> n \<and> n \<le> 57) \<or> (65 \<le> n \<and> n \<le> 70) \<or> (97 \<le> n \<and> n \<le> 102)"
    unfolding is_hex_digit_def by (simp add: eq) arith
  show ?thesis unfolding h d by auto
qed

lemma hex_digit_ok: "is_hex_digit c \<Longrightarrow> \<exists>d. hex_char_to_int c = Inr d"
  using hex_char_to_int_cases [of c] by auto

lemma non_hex_digit: "\<not> is_hex_digit c \<Longrightarrow> hex_char_to_int c = Inl non_hex_input"
  using hex_char_to_int_cases [of c] by auto

lemma hex_symbol_ok: "hex_symbol c \<Longrightarrow> \<exists>d. hex_char_to_int (char_of c) = Inr d"
  unfolding hex_symbol_def by (rule hex_digit_ok)

lemma non_hex_symbol: "\<not> hex_symbol c \<Longrightarrow> hex_char_to_int (char_of c) = Inl non_hex_input"
  unfolding hex_symbol_def by (rule non_hex_digit)

text \<open>One decode unit. With \<open>n\<close> symbols still to read: a symbol that is no hex
  digit as a \<^verbatim>\<open>char\<close> among the next \<open>n\<close> stops the loop first; otherwise the end of the
  input does, if fewer than \<open>n\<close> symbols are left.\<close>

lemma decode_one_for_non_hex:
  "\<exists>c\<in>set (take n first). \<not> hex_symbol c \<Longrightarrow>
   decode_one_for n first res = Inl non_hex_input"
proof (induction n arbitrary: first res)
  case 0
  then show ?case by simp
next
  case (Suc n)
  then obtain c first' where f: "first = c # first'" by (cases first) auto
  show ?case
  proof (cases "hex_symbol c")
    case False
    then show ?thesis by (simp add: f non_hex_symbol)
  next
    case True
    then obtain d where "hex_char_to_int (char_of c) = Inr d" using hex_symbol_ok by blast
    moreover from Suc.prems True f have "\<exists>c\<in>set (take n first'). \<not> hex_symbol c" by auto
    ultimately show ?thesis using Suc.IH f by simp
  qed
qed

lemma decode_one_for_short:
  "\<forall>c\<in>set first. hex_symbol c \<Longrightarrow> length first < n \<Longrightarrow>
   decode_one_for n first res = Inl not_enough_input"
proof (induction n arbitrary: first res)
  case 0
  then show ?case by simp
next
  case (Suc n)
  show ?case
  proof (cases first)
    case Nil
    then show ?thesis by simp
  next
    case (Cons c first')
    with Suc.prems obtain d where "hex_char_to_int (char_of c) = Inr d" using hex_symbol_ok by auto
    with Suc Cons show ?thesis by simp
  qed
qed

lemma decode_one_for_ok:
  "\<forall>c\<in>set (take n first). hex_symbol c \<Longrightarrow> n \<le> length first \<Longrightarrow>
   \<exists>v. decode_one_for n first res = Inr (v, drop n first)"
proof (induction n arbitrary: first res)
  case 0
  then show ?case by simp
next
  case (Suc n)
  then obtain c first' where f: "first = c # first'" by (cases first) auto
  with Suc.prems obtain d where "hex_char_to_int (char_of c) = Inr d" using hex_symbol_ok by auto
  with Suc f show ?case by simp
qed

lemma unhex_result:
  assumes sz: "0 < sizeof_T"
  shows "((\<exists>c\<in>set first. \<not> hex_symbol c) \<and>
            unhex sizeof_T first out = Some (Inl non_hex_input)) \<or>
         ((\<forall>c\<in>set first. hex_symbol c) \<and> length first mod (2 * sizeof_T) \<noteq> 0 \<and>
            unhex sizeof_T first out = Some (Inl not_enough_input)) \<or>
         ((\<forall>c\<in>set first. hex_symbol c) \<and> length first mod (2 * sizeof_T) = 0 \<and>
            (\<exists>vs. unhex sizeof_T first out = Some (Inr vs)))"
proof (induction "length first" arbitrary: first out rule: less_induct)
  case less
  define n where "n = 2 * sizeof_T"
  have npos: "0 < n" using sz by (simp add: n_def)
  show ?case
  proof (cases "first = []")
    case True
    then show ?thesis by (subst (1 2 3) unhex.simps) simp
  next
    case ne: False
    show ?thesis
    proof (cases "\<exists>c\<in>set (take n first). \<not> hex_symbol c")
      case True
      then have "\<exists>c\<in>set first. \<not> hex_symbol c" by (meson in_set_takeD)
      moreover have "decode_one sizeof_T first = Inl non_hex_input"
        using decode_one_for_non_hex [OF True] by (simp add: decode_one_def n_def)
      then have "unhex sizeof_T first out = Some (Inl non_hex_input)"
        using ne by (subst unhex.simps) simp
      ultimately show ?thesis by blast
    next
      case hex: False
      show ?thesis
      proof (cases "length first < n")
        case True
        then have all: "\<forall>c\<in>set first. hex_symbol c" using hex by simp
        have "decode_one sizeof_T first = Inl not_enough_input"
          using decode_one_for_short [OF all True] by (simp add: decode_one_def n_def)
        then have "unhex sizeof_T first out = Some (Inl not_enough_input)"
          using ne by (subst unhex.simps) simp
        moreover have "length first mod (2 * sizeof_T) \<noteq> 0" using True ne by (simp add: n_def)
        ultimately show ?thesis using all by blast
      next
        case False
        then have le: "n \<le> length first" by simp
        from hex have "\<forall>c\<in>set (take n first). hex_symbol c" by blast
        from decode_one_for_ok [OF this le, of 0] obtain v where
          v: "decode_one sizeof_T first = Inr (v, drop n first)"
          by (auto simp: decode_one_def n_def)
        have step: "unhex sizeof_T first out = unhex sizeof_T (drop n first) (out @ [v])"
          using ne v by (subst unhex.simps) simp
        have shorter: "length (drop n first) < length first" using npos le by simp
        have split: "set first = set (take n first) \<union> set (drop n first)"
          by (metis append_take_drop_id set_append)
        have bad: "(\<exists>c\<in>set first. \<not> hex_symbol c) \<longleftrightarrow> (\<exists>c\<in>set (drop n first). \<not> hex_symbol c)"
          and good: "(\<forall>c\<in>set first. hex_symbol c) \<longleftrightarrow> (\<forall>c\<in>set (drop n first). hex_symbol c)"
          using hex split by auto
        have md: "length (drop n first) mod (2 * sizeof_T) = length first mod (2 * sizeof_T)"
          using le by (simp add: le_mod_geq n_def)
        show ?thesis
          unfolding step bad good using less [OF shorter, of "out @ [v]"] md
          by (simp add: n_def)
      qed
    qed
  qed
qed


lemma nul_not_hex: "\<not> hex_symbol 0"
  by (simp add: hex_symbol_def is_hex_digit_def char_of_def)

lemma unhex_ptr_result:
  assumes sz: "0 < sizeof_T" and nul: "0 \<notin> set ptr"
  shows "(((\<exists>c\<in>set ptr. \<not> hex_symbol c) \<or> length ptr mod (2 * sizeof_T) \<noteq> 0) \<and>
            unhex_ptr sizeof_T ptr out = Some (Inl non_hex_input)) \<or>
         ((\<forall>c\<in>set ptr. hex_symbol c) \<and> length ptr mod (2 * sizeof_T) = 0 \<and>
            (\<exists>vs. unhex_ptr sizeof_T ptr out = Some (Inr vs)))"
  using nul
proof (induction "length ptr" arbitrary: ptr out rule: less_induct)
  case less
  define n where "n = 2 * sizeof_T"
  have npos: "0 < n" using sz by (simp add: n_def)
  show ?case
  proof (cases "ptr = []")
    case True
    then show ?thesis by (subst (1 2) unhex_ptr.simps) simp
  next
    case ne: False
    then have go: "hd (ptr @ [0]) \<noteq> 0"
      using less.prems by (cases ptr) auto
    show ?thesis
    proof (cases "length ptr < n")
      case True
      then have r: "take (2 * sizeof_T) (ptr @ [0]) = ptr @ [0]"
        by (simp add: n_def)
      have "\<exists>c\<in>set (take (2 * sizeof_T) (ptr @ [0])). \<not> hex_symbol c"
        unfolding r using nul_not_hex by auto
      then have "decode_one_for (2 * sizeof_T) (ptr @ [0]) 0 = Inl non_hex_input"
        by (rule decode_one_for_non_hex)
      then have "decode_one sizeof_T (take (2 * sizeof_T) (ptr @ [0])) = Inl non_hex_input"
        unfolding decode_one_def r .
      then have "unhex_ptr sizeof_T ptr out = Some (Inl non_hex_input)"
        using go by (subst unhex_ptr.simps) simp
      moreover have "length ptr mod (2 * sizeof_T) \<noteq> 0" using True ne by (simp add: n_def)
      ultimately show ?thesis by blast
    next
      case False
      then have le: "n \<le> length ptr" by simp
      then have r: "take (2 * sizeof_T) (ptr @ [0]) = take n ptr" by (simp add: n_def)
      show ?thesis
      proof (cases "\<exists>c\<in>set (take n ptr). \<not> hex_symbol c")
        case True
        then have "\<exists>c\<in>set ptr. \<not> hex_symbol c" by (meson in_set_takeD)
        moreover have "\<exists>c\<in>set (take n (take n ptr)). \<not> hex_symbol c" using True by simp
        then have "decode_one_for n (take n ptr) 0 = Inl non_hex_input"
          by (rule decode_one_for_non_hex)
        then have "decode_one sizeof_T (take (2 * sizeof_T) (ptr @ [0])) = Inl non_hex_input"
          unfolding decode_one_def r by (simp add: n_def)
        then have "unhex_ptr sizeof_T ptr out = Some (Inl non_hex_input)"
          using go by (subst unhex_ptr.simps) simp
        ultimately show ?thesis by blast
      next
        case hex: False
        then have "\<forall>c\<in>set (take n (take n ptr)). hex_symbol c" by simp
        moreover have "n \<le> length (take n ptr)" using le by simp
        ultimately obtain v where
          "decode_one_for n (take n ptr) 0 = Inr (v, drop n (take n ptr))"
          using decode_one_for_ok by blast
        then have v: "decode_one sizeof_T (take (2 * sizeof_T) (ptr @ [0])) = Inr (v, [])"
          unfolding decode_one_def r by (simp add: n_def)
        have step: "unhex_ptr sizeof_T ptr out = unhex_ptr sizeof_T (drop n ptr) (out @ [v])"
          using go v by (subst unhex_ptr.simps) (simp add: n_def)
        have shorter: "length (drop n ptr) < length ptr" using npos le by simp
        have nul': "0 \<notin> set (drop n ptr)" using less.prems by (meson in_set_dropD)
        have split: "set ptr = set (take n ptr) \<union> set (drop n ptr)"
          by (metis append_take_drop_id set_append)
        have bad: "(\<exists>c\<in>set ptr. \<not> hex_symbol c) \<longleftrightarrow> (\<exists>c\<in>set (drop n ptr). \<not> hex_symbol c)"
          and good: "(\<forall>c\<in>set ptr. hex_symbol c) \<longleftrightarrow> (\<forall>c\<in>set (drop n ptr). hex_symbol c)"
          using hex split by auto
        have md: "length (drop n ptr) mod (2 * sizeof_T) = length ptr mod (2 * sizeof_T)"
          using le by (simp add: le_mod_geq n_def)
        show ?thesis
          unfolding step bad good using less.hyps [OF shorter nul', of "out @ [v]"] md
          by (simp add: n_def)
      qed
    qed
  qed
qed

text \<open>Input of \<^verbatim>\<open>char\<close>s: the conversion to \<^verbatim>\<open>char\<close> gives the character back.\<close>

lemma chars_hex:
  "(\<forall>c\<in>set (map of_char cs). is_hex_digit (char_of (c::int))) \<longleftrightarrow> (\<forall>c\<in>set cs. is_hex_digit c)"
  by simp

lemma chars_not_hex:
  "(\<exists>c\<in>set (map of_char cs). \<not> is_hex_digit (char_of (c::int))) \<longleftrightarrow>
   (\<exists>c\<in>set cs. \<not> is_hex_digit c)"
  by simp

section \<open>Patterns of \<open>2^31\<close> symbols\<close>

text \<open>With \<open>2^31\<close> symbols the length of the pattern no longer fits an \<^verbatim>\<open>int\<close>. The
  lemmas of this section run the code on the pattern that repeats one symbol \<open>a\<close>.\<close>

lemma at_replicate: "at (replicate n a) i = (if i < n then Some a else None)"
  by (simp add: at_def)

lemma longest_border_replicate:
  assumes "0 < n"
  shows "longest_border (replicate n a) = n - 1"
proof -
  have ne: "replicate n a \<noteq> []" using assms by simp
  have "is_border (replicate n a) (n - 1)"
    using assms by (simp add: is_border_nth)
  from longest_border_max [OF this] longest_border_less [OF ne] show ?thesis by simp
qed

lemma boyer_moore_replicate:
  assumes "0 < n"
  shows "boyer_moore (replicate n a)
     = Some (Inr \<lparr>bm_pat = replicate n a, bm_skip = bm_skip_table (replicate n a),
                  bm_suffix = replicate (Suc n) 1\<rparr>)"
proof -
  define p where "p = replicate n a"
  have ne: "p \<noteq> []" and len: "length p = n" using assms by (simp_all add: p_def)
  from boyer_moore_result [of p] ne obtain sfx where
    b: "boyer_moore p = Some (Inr \<lparr>bm_pat = p, bm_skip = bm_skip_table p, bm_suffix = sfx\<rparr>)"
    and ok: "suffix_ok p sfx" by blast
  have "sfx = replicate (Suc n) 1"
  proof (rule nth_equalityI)
    show "length sfx = length (replicate (Suc n) (1::nat))"
      using suffix_ok_length [OF ok] len by simp
  next
    fix j assume "j < length sfx"
    then have j: "j \<le> length p" using suffix_ok_length [OF ok] by simp
    from ok j have "sfx ! j \<le> length p - longest_border p"
      unfolding suffix_ok_def by blast
    then have "sfx ! j \<le> 1"
      using longest_border_replicate [OF assms, of a] assms len by (simp add: p_def)
    with suffix_ok_pos [OF ok j] have "sfx ! j = 1" by simp
    with j len show "sfx ! j = replicate (Suc n) 1 ! j"
      by (simp add: nth_replicate del: replicate.simps)
  qed
  with b show ?thesis by (simp add: p_def)
qed

text \<open>\<^verbatim>\<open>boyer_moore\<close>: the comparison fails at the last symbol of the pattern against a
  symbol \<open>b\<close> that is not in it. \<^verbatim>\<open>(int) j\<close> is \<open>- 2^31\<close>, below \<open>k = - 1\<close>, so the round
  advances by \<^verbatim>\<open>suffix_ [j]\<close>, which is \<open>1\<close>.\<close>

lemma bm_body_wrapped:
  assumes n: "n = 2147483648" and ab: "a \<noteq> b" and rd: "rd (n - 1) = Some b"
  shows "bm_while (replicate n a) rd 0 (length (replicate n a)) = Inr (Mismatch n)"
    and "skip_lookup (bm_skip_table (replicate n a)) b = - 1"
    and "bm_body (replicate n a) (bm_skip_table (replicate n a)) (replicate (Suc n) 1) rd 0
         = Inr (Continue 1)"
proof -
  obtain n' where n': "n = Suc n'" using n by (cases n) auto
  show w: "bm_while (replicate n a) rd 0 (length (replicate n a)) = Inr (Mismatch n)"
    using ab rd by (simp add: n' at_replicate del: replicate.simps)
  show k: "skip_lookup (bm_skip_table (replicate n a)) b = - 1"
    using ab by (simp add: bm_skip_lookup_absent)
  have m: "to_int (int n - - 1 - 1) = - 2147483648" "to_int (int n) = - 2147483648"
    using n by (simp_all add: to_int_wraps)
  have "usub n 1 = Some (n - 1)" "at (replicate (Suc n) (1::nat)) n = Some 1"
    using n by (simp_all add: usub_def at_replicate del: replicate.simps)
  with w k m rd
  show "bm_body (replicate n a) (bm_skip_table (replicate n a)) (replicate (Suc n) 1) rd 0
         = Inr (Continue 1)"
    by (simp add: bm_body_def Let_def del: replicate.simps)
qed




section \<open>The claims\<close>





text \<open>
  Claim C2, as amended. In the search loop of \<^verbatim>\<open>boyer_moore\<close>, built from a pattern of
  fewer than \<open>2^31\<close> symbols: when, at the alignment \<^verbatim>\<open>curPos\<close>, the corpus agrees with
  the pattern from pattern index \<open>j\<close> on and differs from it at index \<open>j - 1\<close>, where
  it holds the symbol \<open>c\<close>, then with \<open>k = skip_ [c]\<close> and \<open>m_shift = j - k - 1\<close> the round
  ends with the alignment advanced by \<open>max m_shift (suffix_ [j])\<close> when \<open>k < j\<close> and
  \<open>m_shift > suffix_ [j]\<close>, and by \<open>suffix_ [j]\<close> otherwise.
\<close>

theorem bm_mismatch_shift:
  assumes bound: "length pat < 2147483648"
    and b: "boyer_moore pat = Some (Inr b)"
    and fit: "curPos + length pat \<le> length corpus"
    and j: "1 \<le> j" "j \<le> length pat"
    and suf: "\<forall>t. j \<le> t \<and> t < length pat \<longrightarrow> corpus ! (curPos + t) = pat ! t"
    and neq: "corpus ! (curPos + (j - 1)) \<noteq> pat ! (j - 1)"
  shows "bm_body (bm_pat b) (bm_skip b) (bm_suffix b) (at corpus) curPos =
     Inr (Continue
       (let c = corpus ! (curPos + (j - 1));
            k = skip_lookup (bm_skip b) c;
            m_shift = int j - k - 1;
            sj = bm_suffix b ! j
        in if k < int j \<and> int sj < m_shift then curPos + nat (max m_shift (int sj))
           else curPos + sj))"
proof -
  have ne: "pat \<noteq> []" using j by auto
  from boyer_moore_result [of pat] b ne obtain sfx where
    b': "b = \<lparr>bm_pat = pat, bm_skip = bm_skip_table pat, bm_suffix = sfx\<rparr>"
    and ok: "suffix_ok pat sfx"
    by auto
  have w: "bm_while pat (at corpus) curPos (length pat) = Inr (Mismatch j)"
    by (rule bm_while_mismatch_at [OF j fit suf neq])
  have c: "at corpus (curPos + (j - 1)) = Some (corpus ! (curPos + (j - 1)))"
    using j fit by (simp add: at_def)
  from bm_body_mismatch [OF ok bound w c] show ?thesis
    by (simp add: b' Let_def max_def)
qed

theorem bm_mismatch_shift_witness:
  "length ''ABC'' < 2147483648 \<and>
   boyer_moore ''ABC''
     = Some (Inr \<lparr>bm_pat = ''ABC'', bm_skip = bm_skip_table ''ABC'', bm_suffix = [3, 3, 3, 1]\<rparr>) \<and>
   0 + length ''ABC'' \<le> length ''xBCABC'' \<and> (1::nat) \<le> 1 \<and> 1 \<le> length ''ABC'' \<and>
   ''xBCABC'' ! (0 + 1) = ''ABC'' ! 1 \<and> ''xBCABC'' ! (0 + 2) = ''ABC'' ! 2 \<and>
   ''xBCABC'' ! (0 + (1 - 1)) \<noteq> ''ABC'' ! (1 - 1) \<and>
   skip_lookup (bm_skip_table ''ABC'') CHR ''x'' = - 1 \<and>
   bm_body ''ABC'' (bm_skip_table ''ABC'') [3, 3, 3, 1] (at ''xBCABC'') 0 = Inr (Continue 3) \<and>
   0 + length ''ABC'' \<le> length ''xxABC'' \<and> (1::nat) \<le> 3 \<and> 3 \<le> length ''ABC'' \<and>
   ''xxABC'' ! (0 + (3 - 1)) \<noteq> ''ABC'' ! (3 - 1) \<and>
   skip_lookup (bm_skip_table ''ABC'') CHR ''A'' = 0 \<and>
   bm_body ''ABC'' (bm_skip_table ''ABC'') [3, 3, 3, 1] (at ''xxABC'') 0 = Inr (Continue 2)"
proof -
  have bound: "length ''ABC'' < 2147483648" by simp
  have sfx: "create_suffix_table ''ABC'' (replicate (length ''ABC'' + 1) 0) = Some (Inr [3, 3, 3, 1])"
    by code_simp
  have bm: "boyer_moore ''ABC''
      = Some (Inr \<lparr>bm_pat = ''ABC'', bm_skip = bm_skip_table ''ABC'', bm_suffix = [3, 3, 3, 1]\<rparr>)"
    unfolding boyer_moore_def build_bm_tables_def sfx by (simp add: bm_skip_table_def)
  have k: "skip_lookup (bm_skip_table ''ABC'') CHR ''x'' = - 1"
    "skip_lookup (bm_skip_table ''ABC'') CHR ''A'' = 0"
    by (simp_all add: bm_skip_table_def skip_lookup_def skip_insert_def skip_table_def
          to_int_id)
  have fit1: "0 + length ''ABC'' \<le> length ''xBCABC''" and j1: "(1::nat) \<le> 1" "1 \<le> length ''ABC''"
    and neq1: "''xBCABC'' ! (0 + (1 - 1)) \<noteq> ''ABC'' ! (1 - 1)"
    by simp_all
  have suf1: "\<forall>t. 1 \<le> t \<and> t < length ''ABC'' \<longrightarrow> ''xBCABC'' ! (0 + t) = ''ABC'' ! t"
  proof (intro allI impI)
    fix t :: nat assume "1 \<le> t \<and> t < length ''ABC''"
    then have "t = 1 \<or> t = 2" by auto
    then show "''xBCABC'' ! (0 + t) = ''ABC'' ! t" by auto
  qed
  have fit3: "0 + length ''ABC'' \<le> length ''xxABC''" and j3: "(1::nat) \<le> 3" "3 \<le> length ''ABC''"
    and neq3: "''xxABC'' ! (0 + (3 - 1)) \<noteq> ''ABC'' ! (3 - 1)"
    by simp_all
  have suf3: "\<forall>t. 3 \<le> t \<and> t < length ''ABC'' \<longrightarrow> ''xxABC'' ! (0 + t) = ''ABC'' ! t"
    by simp
  from bm_mismatch_shift [OF bound bm fit1 j1 suf1 neq1] k(1)
  have r1: "bm_body ''ABC'' (bm_skip_table ''ABC'') [3, 3, 3, 1] (at ''xBCABC'') 0
            = Inr (Continue 3)"
    by simp
  from bm_mismatch_shift [OF bound bm fit3 j3 suf3 neq3] k(2)
  have r3: "bm_body ''ABC'' (bm_skip_table ''ABC'') [3, 3, 3, 1] (at ''xxABC'') 0
            = Inr (Continue 2)"
    by simp
  from bm k r1 r3 show ?thesis by simp
qed

theorem bm_shift_long_pattern_counterexample:
  "boyer_moore (replicate 2147483648 CHR ''A'')
     = Some (Inr \<lparr>bm_pat = replicate 2147483648 CHR ''A'',
                  bm_skip = bm_skip_table (replicate 2147483648 CHR ''A''),
                  bm_suffix = replicate 2147483649 1\<rparr>) \<and>
   bm_while (replicate 2147483648 CHR ''A'') (at (replicate 2147483648 CHR ''B'')) 0
     (length (replicate 2147483648 CHR ''A'')) = Inr (Mismatch 2147483648) \<and>
   at (replicate 2147483648 CHR ''B'') (0 + (2147483648 - 1)) = Some CHR ''B'' \<and>
   skip_lookup (bm_skip_table (replicate 2147483648 CHR ''A'')) CHR ''B'' = - 1 \<and>
   replicate 2147483649 (1::nat) ! 2147483648 = 1 \<and>
   (- 1 :: int) < 2147483648 \<and> (1::int) < 2147483648 - (- 1) - 1 \<and>
   bm_body (replicate 2147483648 CHR ''A'') (bm_skip_table (replicate 2147483648 CHR ''A''))
     (replicate 2147483649 1) (at (replicate 2147483648 CHR ''B'')) 0 = Inr (Continue 1) \<and>
   0 + nat (max (2147483648 - (- 1) - 1) 1) \<noteq> (1::nat)"
proof -
  have rd: "at (replicate 2147483648 CHR ''B'') (2147483648 - 1) = Some CHR ''B''"
    by (simp add: at_replicate)
  note r = bm_body_wrapped [where n = 2147483648 and a = "CHR ''A''" and b = "CHR ''B''"
      and rd = "at (replicate 2147483648 CHR ''B'')", OF refl _ rd]
  have "boyer_moore (replicate 2147483648 CHR ''A'')
     = Some (Inr \<lparr>bm_pat = replicate 2147483648 CHR ''A'',
                  bm_skip = bm_skip_table (replicate 2147483648 CHR ''A''),
                  bm_suffix = replicate 2147483649 1\<rparr>)"
    using boyer_moore_replicate [of 2147483648 "CHR ''A''"] by (simp del: replicate.simps)
  moreover have "bm_body (replicate 2147483648 CHR ''A'')
     (bm_skip_table (replicate 2147483648 CHR ''A''))
     (replicate 2147483649 1) (at (replicate 2147483648 CHR ''B'')) 0 = Inr (Continue 1)"
    using r(3) by (simp del: replicate.simps)
  moreover have "bm_while (replicate 2147483648 CHR ''A'') (at (replicate 2147483648 CHR ''B'')) 0
     (length (replicate 2147483648 CHR ''A'')) = Inr (Mismatch 2147483648)"
    using r(1) by simp
  moreover have "skip_lookup (bm_skip_table (replicate 2147483648 CHR ''A'')) CHR ''B'' = - 1"
    using r(2) by simp
  ultimately show ?thesis using rd by simp
qed

text \<open>
  Claim C3, as amended. For a pattern of length \<open>m\<close> below \<open>2^31 - 1\<close> the constructor of
  \<^verbatim>\<open>knuth_morris_pratt\<close> ends without a fault, and the table that \<^verbatim>\<open>init_skip_table\<close>
  leaves in \<^verbatim>\<open>skip_\<close> has length \<open>m + 1\<close>, holds \<open>-1\<close> at index \<open>0\<close>, and at every index
  \<open>i\<close> from \<open>1\<close> to \<open>m\<close> the length of the longest proper prefix of the first \<open>i\<close> pattern
  symbols that is also a suffix of them: the entry is the length of such a prefix,
  and no such prefix is longer.
\<close>

theorem kmp_failure_table:
  assumes "length p < 2147483647"
  shows "\<exists>m. knuth_morris_pratt p = Some (Inr m) \<and> kmp_pat m = p \<and>
       length (kmp_skip m) = length p + 1 \<and> kmp_skip m ! 0 = - 1 \<and>
       (\<forall>i. 1 \<le> i \<and> i \<le> length p \<longrightarrow>
            0 \<le> kmp_skip m ! i \<and>
            is_border (take i p) (nat (kmp_skip m ! i)) \<and>
            (\<forall>k. is_border (take i p) k \<longrightarrow> int k \<le> kmp_skip m ! i))"
proof (intro exI conjI allI impI)
  show "knuth_morris_pratt p = Some (Inr \<lparr>kmp_pat = p, kmp_skip = failure_table p\<rparr>)"
    by (rule knuth_morris_pratt_result [OF assms])
next
  fix i assume i: "1 \<le> i \<and> i \<le> length p"
  then have e: "failure_table p ! i = int (longest_border (take i p))"
    by (simp add: failure_table_nth)
  have ne: "take i p \<noteq> []" using i by auto
  show "0 \<le> kmp_skip \<lparr>kmp_pat = p, kmp_skip = failure_table p\<rparr> ! i"
    using e by simp
  show "is_border (take i p) (nat (kmp_skip \<lparr>kmp_pat = p, kmp_skip = failure_table p\<rparr> ! i))"
    using e longest_border_is [OF ne] by simp
  fix k assume "is_border (take i p) k"
  from longest_border_max [OF this]
  show "int k \<le> kmp_skip \<lparr>kmp_pat = p, kmp_skip = failure_table p\<rparr> ! i"
    using e by simp
qed (simp_all add: failure_table_length failure_table_0)

theorem kmp_failure_table_witness:
  "length ''ABAB'' < 2147483647 \<and>
   (1::nat) \<le> 4 \<and> 4 \<le> length ''ABAB'' \<and> is_border ''ABAB'' 2 \<and>
   (\<exists>m. knuth_morris_pratt ''ABAB'' = Some (Inr m) \<and> length (kmp_skip m) = 5 \<and>
        kmp_skip m ! 0 = - 1 \<and> kmp_skip m ! 4 = 2)"
proof -
  have bound: "length ''ABAB'' < 2147483647" by simp
  from kmp_failure_table [OF bound] obtain m where
    m: "knuth_morris_pratt ''ABAB'' = Some (Inr m)" "length (kmp_skip m) = 5"
       "kmp_skip m ! 0 = - 1"
    and all: "\<forall>i. 1 \<le> i \<and> i \<le> length ''ABAB'' \<longrightarrow>
            0 \<le> kmp_skip m ! i \<and>
            is_border (take i ''ABAB'') (nat (kmp_skip m ! i)) \<and>
            (\<forall>k. is_border (take i ''ABAB'') k \<longrightarrow> int k \<le> kmp_skip m ! i)"
    by auto
  have b2: "is_border ''ABAB'' 2" by (simp add: is_border_def)
  from spec [OF all, of 4] have 4: "0 \<le> kmp_skip m ! 4"
    "is_border ''ABAB'' (nat (kmp_skip m ! 4))"
    "\<forall>k. is_border ''ABAB'' k \<longrightarrow> int k \<le> kmp_skip m ! 4"
    by simp_all
  from 4(3) b2 have lo: "2 \<le> kmp_skip m ! 4" by fastforce
  from 4(2) have "nat (kmp_skip m ! 4) < 4" by (simp add: is_border_def)
  with lo 4(1) have "nat (kmp_skip m ! 4) = 2 \<or> nat (kmp_skip m ! 4) = 3" by linarith
  moreover have "\<not> is_border ''ABAB'' 3" by (simp add: is_border_def)
  ultimately have "nat (kmp_skip m ! 4) = 2" using 4(2) by auto
  with 4(1) have "kmp_skip m ! 4 = 2" by simp
  with m b2 show ?thesis by auto
qed

theorem kmp_table_long_pattern_counterexample:
  "knuth_morris_pratt (replicate 2147483648 CHR ''A'')
     = Some (Inr \<lparr>kmp_pat = replicate 2147483648 CHR ''A'',
                  kmp_skip = (replicate 2147483649 0)[0 := - 1]\<rparr>) \<and>
   (replicate 2147483649 (0::int))[0 := - 1] ! 2 = 0 \<and>
   is_border (take 2 (replicate 2147483648 CHR ''A'')) 1"
proof -
  have "knuth_morris_pratt (replicate 2147483648 CHR ''A'')
     = Some (Inr \<lparr>kmp_pat = replicate 2147483648 CHR ''A'',
                  kmp_skip = (replicate 2147483649 0)[0 := - 1]\<rparr>)"
    using knuth_morris_pratt_wrapped [of "replicate 2147483648 CHR ''A''"]
    by (simp del: replicate.simps)
  moreover have "is_border (take 2 (replicate 2147483648 CHR ''A'')) 1"
    by (simp add: is_border_def)
  ultimately show ?thesis by simp
qed







text \<open>
  Claim C6. For every corpus, the empty one included, a search for the empty
  pattern returns position \<open>0\<close> of the corpus, with each of the three matchers.
\<close>

theorem empty_pattern_found_at_0:
  "boyer_moore_search corpus [] = Some (Inr 0) \<and>
   boyer_moore_horspool_search corpus [] = Some (Inr 0) \<and>
   knuth_morris_pratt_search corpus [] = Some (Inr 0)"
proof -
  have "naive_search corpus [] = 0"
    using naive_search_trivial(1,2) [of corpus "[]"] by (cases "length corpus = 0") simp_all
  then show ?thesis
    using bm_search_naive [of "[]" corpus] bmh_search_naive [of "[]" corpus]
      kmp_search_naive [of "[]" corpus]
    by simp
qed

text \<open>
  Claim C7, as amended. When the pattern is longer than the corpus, \<^verbatim>\<open>operator ()\<close> of
  \<^verbatim>\<open>boyer_moore\<close> and of \<^verbatim>\<open>boyer_moore_horspool\<close> returns \<^verbatim>\<open>corpus_last\<close>, the position one
  past the end of the corpus, whatever the corpus iterator \<open>rd\<close> would give when
  read: the result is the same for an iterator on which every read fails, so no
  corpus symbol is examined. So does \<^verbatim>\<open>operator ()\<close> of \<^verbatim>\<open>knuth_morris_pratt\<close>, unless the
  length of the pattern is \<open>2^31 - 1\<close> as the \<^verbatim>\<open>int count\<close> of the constructor holds it
  (no pattern of fewer than \<open>2^31 - 1\<close> symbols is). The one-shot searches over a
  corpus list return its length.
\<close>

theorem longer_pattern_not_found:
  assumes "k_corpus_length < length pat"
  shows "(\<exists>b. boyer_moore pat = Some (Inr b) \<and>
              bm_call b rd k_corpus_length = Some (Inr k_corpus_length)) \<and>
         bmh_call (boyer_moore_horspool pat) rd k_corpus_length = Some (Inr k_corpus_length) \<and>
         (to_int (int (length pat)) \<noteq> 2147483647 \<longrightarrow>
            (\<exists>k. knuth_morris_pratt pat = Some (Inr k) \<and>
                 kmp_call k rd k_corpus_length = Some (Inr k_corpus_length))) \<and>
         (length corpus = k_corpus_length \<longrightarrow>
            boyer_moore_search corpus pat = Some (Inr (length corpus)) \<and>
            boyer_moore_horspool_search corpus pat = Some (Inr (length corpus)) \<and>
            (to_int (int (length pat)) \<noteq> 2147483647 \<longrightarrow>
               knuth_morris_pratt_search corpus pat = Some (Inr (length corpus))))"
proof -
  from boyer_moore_result [of pat] obtain sfx where
    b: "boyer_moore pat = Some (Inr \<lparr>bm_pat = pat, bm_skip = bm_skip_table pat, bm_suffix = sfx\<rparr>)"
    by blast
  have ne: "pat \<noteq> []" using assms by auto
  have bmc: "bm_call \<lparr>bm_pat = pat, bm_skip = bm_skip_table pat, bm_suffix = sfx\<rparr> rd' k_corpus_length
             = Some (Inr k_corpus_length)" for rd'
    using assms ne by (simp add: bm_call_def)
  have bmhc: "bmh_call (boyer_moore_horspool pat) rd' k_corpus_length = Some (Inr k_corpus_length)"
    for rd'
    using assms ne by (simp add: bmh_call_def boyer_moore_horspool_def)
  have kmpc: "kmp_call \<lparr>kmp_pat = pat, kmp_skip = skip\<rparr> rd' k_corpus_length
              = Some (Inr k_corpus_length)" for rd' skip
    using assms ne by (simp add: kmp_call_def)
  have "\<exists>b. boyer_moore pat = Some (Inr b) \<and>
              bm_call b rd k_corpus_length = Some (Inr k_corpus_length)"
    using b bmc by simp
  moreover have "bmh_call (boyer_moore_horspool pat) rd k_corpus_length = Some (Inr k_corpus_length)"
    by (rule bmhc)
  moreover have "\<exists>k. knuth_morris_pratt pat = Some (Inr k) \<and>
              kmp_call k rd k_corpus_length = Some (Inr k_corpus_length)"
    if "to_int (int (length pat)) \<noteq> 2147483647"
    using knuth_morris_pratt_completes [OF that] kmpc by auto
  moreover have "boyer_moore_search corpus pat = Some (Inr (length corpus)) \<and>
            boyer_moore_horspool_search corpus pat = Some (Inr (length corpus)) \<and>
            (to_int (int (length pat)) \<noteq> 2147483647 \<longrightarrow>
               knuth_morris_pratt_search corpus pat = Some (Inr (length corpus)))"
    if l: "length corpus = k_corpus_length"
  proof (intro conjI impI)
    show "boyer_moore_search corpus pat = Some (Inr (length corpus))"
      using b bmc [of "at corpus"] l by (simp add: boyer_moore_search_def)
    show "boyer_moore_horspool_search corpus pat = Some (Inr (length corpus))"
      using bmhc [of "at corpus"] l by (simp add: boyer_moore_horspool_search_def)
    assume "to_int (int (length pat)) \<noteq> 2147483647"
    from knuth_morris_pratt_completes [OF this] obtain skip where
      "knuth_morris_pratt pat = Some (Inr \<lparr>kmp_pat = pat, kmp_skip = skip\<rparr>)" by blast
    with kmpc [of skip "at corpus"] l
    show "knuth_morris_pratt_search corpus pat = Some (Inr (length corpus))"
      by (simp add: knuth_morris_pratt_search_def)
  qed
  ultimately show ?thesis by blast
qed

theorem longer_pattern_not_found_witness:
  "(3::nat) < length ''AAAA'' \<and> to_int (int (length ''AAAA'')) \<noteq> 2147483647 \<and>
   length ''AAA'' = 3 \<and>
   (\<exists>b. boyer_moore ''AAAA'' = Some (Inr b) \<and> bm_call b (\<lambda>i. None) 3 = Some (Inr 3)) \<and>
   bmh_call (boyer_moore_horspool ''AAAA'') (\<lambda>i. None) 3 = Some (Inr 3) \<and>
   (\<exists>k. knuth_morris_pratt ''AAAA'' = Some (Inr k) \<and> kmp_call k (\<lambda>i. None) 3 = Some (Inr 3)) \<and>
   boyer_moore_search ''AAA'' ''AAAA'' = Some (Inr 3) \<and>
   boyer_moore_horspool_search ''AAA'' ''AAAA'' = Some (Inr 3) \<and>
   knuth_morris_pratt_search ''AAA'' ''AAAA'' = Some (Inr 3)"
proof -
  have h: "(3::nat) < length ''AAAA''" by simp
  have c: "to_int (int (length ''AAAA'')) \<noteq> 2147483647" by (simp add: to_int_id)
  from longer_pattern_not_found [OF h, of "\<lambda>i. None" "''AAA''"] c show ?thesis by simp
qed

theorem kmp_constructor_overflow_counterexample:
  "length ''A'' < length (replicate 2147483647 CHR ''A'') \<and>
   to_int (int (length (replicate 2147483647 CHR ''A''))) = 2147483647 \<and>
   knuth_morris_pratt (replicate 2147483647 CHR ''A'') = Some (Inl Overflow) \<and>
   knuth_morris_pratt_search ''A'' (replicate 2147483647 CHR ''A'') = Some (Inl Overflow)"
proof -
  have "knuth_morris_pratt (replicate 2147483647 CHR ''A'') = Some (Inl Overflow)"
    by (rule knuth_morris_pratt_overflow) simp
  then show ?thesis by (simp add: knuth_morris_pratt_search_def to_int_id)
qed

text \<open>
  Claim C8. For a symbol type of one byte, the array skip table and the map skip
  table, made with the same default and given the same sequence of
  \<^verbatim>\<open>insert (key, val)\<close> calls (a later call for a key overwriting an earlier one),
  return the same integer for the lookup of every symbol.
\<close>

theorem skip_table_refinement:
  "array_lookup (array_inserts calls (skip_array patSize default_value)) c
   = skip_lookup (map_inserts calls (skip_table patSize default_value)) c"
proof -
  have "same_lookups (skip_array patSize default_value) (skip_table patSize default_value)"
    by (rule same_lookups_new)
  then have "same_lookups (array_inserts calls (skip_array patSize default_value))
               (map_inserts calls (skip_table patSize default_value))"
    by (rule same_lookups_inserts)
  then show ?thesis by (simp add: same_lookups_def)
qed




text \<open>
  Claim C9, as amended. Decoding fails in exactly two ways, \<^verbatim>\<open>non_hex_input\<close> and
  \<^verbatim>\<open>not_enough_input\<close>. The decoder tests each input symbol after its conversion to
  \<^verbatim>\<open>char\<close>, which keeps the low eight bits: for input of \<^verbatim>\<open>char\<close>s that is the
  character itself. With a decode unit of \<^verbatim>\<open>2 * sizeof (T)\<close> symbols,
  \<^verbatim>\<open>unhex (first, last, out)\<close> (and the range and string overloads, which call it)
  throws \<^verbatim>\<open>non_hex_input\<close> when a symbol of the input, so converted, is no
  hexadecimal digit, throws \<^verbatim>\<open>not_enough_input\<close> when all are digits and the input
  ends inside a unit, and throws nothing when all are digits and the length is a
  multiple of the unit. The overload for a null-terminated string has no end to run
  into: it reads the terminator as a symbol, so an input that ends inside a unit
  makes it throw \<^verbatim>\<open>non_hex_input\<close>, as does a symbol that is no digit; it throws
  nothing when all symbols are digits and the length is a multiple of the unit.
\<close>

theorem unhex_failures:
  assumes "0 < sizeof_T"
  shows
    "((\<exists>c\<in>set s. \<not> is_hex_digit (char_of c)) \<longrightarrow>
         unhex sizeof_T s out = Some (Inl non_hex_input)) \<and>
     ((\<forall>c\<in>set s. is_hex_digit (char_of c)) \<and> length s mod (2 * sizeof_T) \<noteq> 0 \<longrightarrow>
         unhex sizeof_T s out = Some (Inl not_enough_input)) \<and>
     ((\<forall>c\<in>set s. is_hex_digit (char_of c)) \<and> length s mod (2 * sizeof_T) = 0 \<longrightarrow>
         (\<exists>vs. unhex sizeof_T s out = Some (Inr vs))) \<and>
     (0 \<notin> set s \<longrightarrow>
        ((\<exists>c\<in>set s. \<not> is_hex_digit (char_of c)) \<or> length s mod (2 * sizeof_T) \<noteq> 0 \<longrightarrow>
           unhex_ptr sizeof_T s out = Some (Inl non_hex_input)) \<and>
        ((\<forall>c\<in>set s. is_hex_digit (char_of c)) \<and> length s mod (2 * sizeof_T) = 0 \<longrightarrow>
           (\<exists>vs. unhex_ptr sizeof_T s out = Some (Inr vs))))"
proof -
  have r1: "(\<exists>c\<in>set s. \<not> is_hex_digit (char_of c)) \<longrightarrow>
         unhex sizeof_T s out = Some (Inl non_hex_input)"
    and r2: "(\<forall>c\<in>set s. is_hex_digit (char_of c)) \<and> length s mod (2 * sizeof_T) \<noteq> 0 \<longrightarrow>
         unhex sizeof_T s out = Some (Inl not_enough_input)"
    and r3: "(\<forall>c\<in>set s. is_hex_digit (char_of c)) \<and> length s mod (2 * sizeof_T) = 0 \<longrightarrow>
         (\<exists>vs. unhex sizeof_T s out = Some (Inr vs))"
    using unhex_result [OF assms, of s out] by (auto simp: hex_symbol_def)
  have p: "0 \<notin> set s \<longrightarrow>
        ((\<exists>c\<in>set s. \<not> is_hex_digit (char_of c)) \<or> length s mod (2 * sizeof_T) \<noteq> 0 \<longrightarrow>
           unhex_ptr sizeof_T s out = Some (Inl non_hex_input)) \<and>
        ((\<forall>c\<in>set s. is_hex_digit (char_of c)) \<and> length s mod (2 * sizeof_T) = 0 \<longrightarrow>
           (\<exists>vs. unhex_ptr sizeof_T s out = Some (Inr vs)))"
  proof
    assume "0 \<notin> set s"
    from unhex_ptr_result [OF assms this, of out]
    show "((\<exists>c\<in>set s. \<not> is_hex_digit (char_of c)) \<or> length s mod (2 * sizeof_T) \<noteq> 0 \<longrightarrow>
           unhex_ptr sizeof_T s out = Some (Inl non_hex_input)) \<and>
        ((\<forall>c\<in>set s. is_hex_digit (char_of c)) \<and> length s mod (2 * sizeof_T) = 0 \<longrightarrow>
           (\<exists>vs. unhex_ptr sizeof_T s out = Some (Inr vs)))"
      by (auto simp: hex_symbol_def)
  qed
  show ?thesis by (rule conjI [OF r1 conjI [OF r2 conjI [OF r3 p]]])
qed

theorem unhex_failures_witness:
  "(0::nat) < 1 \<and>
   \<not> is_hex_digit CHR ''G'' \<and> unhex 1 (map of_char ''48G5'') [] = Some (Inl non_hex_input) \<and>
   list_all is_hex_digit ''486'' \<and> length ''486'' mod (2 * 1) \<noteq> 0 \<and>
   unhex 1 (map of_char ''486'') [] = Some (Inl not_enough_input) \<and>
   unhex_ptr 1 (map of_char ''486'') [] = Some (Inl non_hex_input) \<and>
   list_all is_hex_digit ''4865'' \<and> length ''4865'' mod (2 * 1) = 0 \<and>
   unhex 1 (map of_char ''4865'') [] = Some (Inr [72, 101]) \<and>
   unhex_ptr 1 (map of_char ''4865'') [] = Some (Inr [72, 101])"
proof -
  have sz: "(0::nat) < 1" by simp
  have g: "\<not> is_hex_digit CHR ''G''"
    "\<exists>c\<in>set (map of_char ''48G5''). \<not> is_hex_digit (char_of (c::int))"
    unfolding chars_not_hex by (simp_all add: is_hex_digit_def)
  have d3: "\<forall>c\<in>set (map of_char ''486''). is_hex_digit (char_of (c::int))"
    "(0::int) \<notin> set (map of_char ''486'')"
    "length (map of_char ''486'' :: int list) mod (2 * 1) \<noteq> 0"
    unfolding chars_hex by (simp_all add: is_hex_digit_def)
  have d4: "list_all is_hex_digit ''486''" "list_all is_hex_digit ''4865''"
    by (simp_all add: is_hex_digit_def)
  from unhex_failures [OF sz, of "map of_char ''48G5''" "[]"] g(2)
  have 1: "unhex 1 (map of_char ''48G5'') [] = Some (Inl non_hex_input)" by blast
  from unhex_failures [OF sz, of "map of_char ''486''" "[]"] d3
  have 2: "unhex 1 (map of_char ''486'') [] = Some (Inl not_enough_input)"
    "unhex_ptr 1 (map of_char ''486'') [] = Some (Inl non_hex_input)" by blast+
  have 3: "unhex 1 (map of_char ''4865'') [] = Some (Inr [72, 101])"
    "unhex_ptr 1 (map of_char ''4865'') [] = Some (Inr [72, 101])" by code_simp+
  from g(1) 1 2 d4 3 show ?thesis by simp
qed

theorem unhex_ptr_counterexample:
  "list_all is_hex_digit ''ABC'' \<and> length ''ABC'' mod (2 * 1) \<noteq> 0 \<and>
   unhex_ptr 1 (map of_char ''ABC'') [] = Some (Inl non_hex_input) \<and>
   unhex_ptr 1 (map of_char ''ABC'') [] \<noteq> Some (Inl not_enough_input) \<and>
   (321::int) \<notin> set (map of_char ''0123456789ABCDEFabcdef'') \<and>
   char_of (321::int) = CHR ''A'' \<and> char_of (304::int) = CHR ''0'' \<and>
   unhex 1 [321, 304] [] = Some (Inr [160])"
proof -
  have "unhex_ptr 1 (map of_char ''ABC'') [] = Some (Inl non_hex_input)" by code_simp
  moreover have "unhex 1 [321, 304] [] = Some (Inr [160])" by code_simp
  moreover have "char_of (321::int) = CHR ''A''" "char_of (304::int) = CHR ''0''"
    by (simp_all add: char_of_def)
  ultimately show ?thesis by (simp add: is_hex_digit_def)
qed

end
